theory Spec2Isabelle
  imports Main "HOL-Library.Sublist"
begin

section \<open>Bytes and the line framer of \<open>QEMURunner._reader\<close>\<close>

text \<open>
  The emulator session harness of \<^verbatim>\<open>tests/conftest.py\<close> (class \<open>QEMURunner\<close>) and of
  \<^verbatim>\<open>setup.py\<close> (class \<open>QEMUManager\<close>).  A Python \<open>bytes\<close> value is a list of
  8-bit characters.
\<close>

type_synonym bytes = "char list"

definition NL :: char where
  "NL = CHR 0x0A"

text \<open>
  \<open>bytes.strip()\<close> without argument removes the ASCII whitespace
  \<^verbatim>\<open>b' \t\n\r\x0b\x0c'\<close> from both ends; the source calls nothing but \<open>strip\<close>.
  \<open>rstrip\<close> alone is the trimming that the specification describes (trailing
  whitespace and carriage return only); it is here to be compared with \<open>strip\<close>.
\<close>

definition is_space :: "char \<Rightarrow> bool" where
  "is_space c \<longleftrightarrow>
     c = CHR 0x20 \<or> c = CHR 0x09 \<or> c = CHR 0x0A \<or> c = CHR 0x0D \<or> c = CHR 0x0B \<or> c = CHR 0x0C"

definition lstrip :: "bytes \<Rightarrow> bytes" where
  "lstrip bs = dropWhile is_space bs"

definition rstrip :: "bytes \<Rightarrow> bytes" where
  "rstrip bs = rev (dropWhile is_space (rev bs))"

definition strip :: "bytes \<Rightarrow> bytes" where
  "strip bs = rstrip (lstrip bs)"

text \<open>
  \<^verbatim>\<open>line, buffer = buffer.split(b'\n', 1)\<close>, which the source runs only under the guard
  \<^verbatim>\<open>b'\n' in buffer\<close>: the part before the first newline, and the part after it.
\<close>

definition split1 :: "bytes \<Rightarrow> bytes \<times> bytes" where
  "split1 buffer =
     (takeWhile (\<lambda>c. c \<noteq> NL) buffer, tl (dropWhile (\<lambda>c. c \<noteq> NL) buffer))"

text \<open>
  The inner loop of \<open>_reader\<close>:
  \<^verbatim>\<open>
      while b'\n' in buffer:
          line, buffer = buffer.split(b'\n', 1)
          self.output_queue.put(line.strip())
  \<close>
  on the local buffer and the queue (a \<open>queue.Queue\<close>: \<open>put\<close> appends at the back).
\<close>

function drain :: "bytes \<Rightarrow> bytes list \<Rightarrow> bytes \<times> bytes list" where
  "drain buffer q =
     (if NL \<in> set buffer
      then (case split1 buffer of (line, buffer') \<Rightarrow> drain buffer' (q @ [strip line]))
      else (buffer, q))"
  by pat_completeness auto
termination
proof (relation "measure (\<lambda>(buffer, q). length buffer)")
  show "wf (measure (\<lambda>(buffer, q). length buffer))" by simp
next
  fix buffer :: bytes and q :: "bytes list" and x y :: bytes
  assume nl: "NL \<in> set buffer" and p: "(x, y) = split1 buffer"
  from nl have "dropWhile (\<lambda>c. c \<noteq> NL) buffer \<noteq> []"
    by simp
  moreover have "length (dropWhile (\<lambda>c. c \<noteq> NL) buffer) \<le> length buffer"
    by (rule length_dropWhile_le)
  ultimately have "length (tl (dropWhile (\<lambda>c. c \<noteq> NL) buffer)) < length buffer"
    by (cases "dropWhile (\<lambda>c. c \<noteq> NL) buffer") auto
  with p show "((y, q @ [strip x]), (buffer, q)) \<in> measure (\<lambda>(buffer, q). length buffer)"
    by (simp add: split1_def)
qed

declare drain.simps [simp del]


section \<open>The session state and its environment\<close>

text \<open>
  Python exceptions that the modelled code raises or lets through.  \<open>Empty\<close> is
  \<open>queue.Empty\<close>; \<open>OSError\<close> stands for every failure of the operating system
  (\<open>FileNotFoundError\<close> of \<open>Popen\<close>, a broken pipe of \<open>send\<close>);
  \<open>UnicodeEncodeError\<close> is what \<open>str.encode()\<close> raises.
\<close>

datatype exn =
    RuntimeError string
  | AttributeError
  | ValueError
  | TimeoutExpired
  | OSError
  | Empty
  | UnicodeEncodeError

datatype 'a result = Return 'a | Raise exn

type_synonym pid = nat
type_synonym sock = nat

text \<open>
  What the harness does to the outside world, in program order: each call that returned
  is one entry.  \<open>Wait p\<close> is a \<open>wait\<close> that returned, so process \<open>p\<close> has exited.
\<close>

datatype effect =
    Popen pid string
  | Terminate pid
  | Wait pid
  | Socket sock
  | Connect sock
  | Close sock
  | Send sock bytes
  | ThreadStart nat

record world =
  log :: "effect list"
  next_id :: nat

text \<open>The fields that \<open>QEMURunner.__init__\<close> sets.\<close>

record runner =
  process :: "pid option"
  serial :: "sock option"
  output_queue :: "bytes list"
  reader_thread :: "nat option"

definition init :: runner where
  "init = \<lparr>process = None, serial = None, output_queue = [], reader_thread = None\<rparr>"

definition init_world :: world where
  "init_world = \<lparr>log = [], next_id = 0\<rparr>"

text \<open>
  The emulator subprocesses that have been launched and not yet reaped by a returning
  \<open>wait\<close>, read off the log; a process that died by itself still counts until then.
\<close>

fun apply_effect :: "effect \<Rightarrow> pid list \<Rightarrow> pid list" where
  "apply_effect (Popen p img) L = L @ [p]"
| "apply_effect (Wait p) L = removeAll p L"
| "apply_effect e L = L"

definition live :: "effect list \<Rightarrow> pid list" where
  "live es = fold apply_effect es []"

text \<open>At every moment of the log, at most one launched subprocess was live.\<close>

fun never_two :: "pid list \<Rightarrow> effect list \<Rightarrow> bool" where
  "never_two L [] = (length L \<le> 1)"
| "never_two L (e # es) = (length L \<le> 1 \<and> never_two (apply_effect e L) es)"

section \<open>\<open>QEMURunner.stop\<close>\<close>

text \<open>
  \<^verbatim>\<open>
  def stop(self):
      if self.serial:
          self.serial.close()
          self.serial = None
      if self.process:
          self.process.terminate()
          self.process.wait(timeout=5)
          self.process = None
  \<close>
  \<open>exits\<close> says whether the subprocess exits within the five seconds of the \<open>wait\<close>;
  if it does not, \<open>wait\<close> raises \<open>TimeoutExpired\<close> and the handle stays set.
\<close>

definition stop :: "bool \<Rightarrow> runner \<times> world \<Rightarrow> unit result \<times> runner \<times> world" where
  "stop exits sw =
     (case sw of (s, w) \<Rightarrow>
        (case (case serial s of
                 Some k \<Rightarrow> (s\<lparr>serial := None\<rparr>, w\<lparr>log := log w @ [Close k]\<rparr>)
               | None \<Rightarrow> (s, w)) of
           (s1, w1) \<Rightarrow>
             (case process s1 of
                None \<Rightarrow> (Return (), s1, w1)
              | Some p \<Rightarrow>
                  if exits
                  then (Return (), s1\<lparr>process := None\<rparr>, w1\<lparr>log := log w1 @ [Terminate p, Wait p]\<rparr>)
                  else (Raise TimeoutExpired, s1, w1\<lparr>log := log w1 @ [Terminate p]\<rparr>))))"

section \<open>\<open>QEMURunner.start\<close>\<close>

text \<open>
  One pass of the connection loop either fails in \<open>socket.socket(...)\<close> (nothing
  assigned), or assigns the new socket to \<open>self.serial\<close> and fails in \<open>connect\<close>,
  or connects (\<open>settimeout(0.1)\<close> on the connected socket does not fail).  Each pass
  comes with the reading of \<open>time.time()\<close> that its loop guard made, in milliseconds.
\<close>

datatype attempt = SocketError | ConnectError | Connected

text \<open>
  \<^verbatim>\<open>
  start_time = time.time()
  while time.time() - start_time < timeout:
      try:
          self.serial = socket.socket(socket.AF_INET, socket.SOCK_STREAM)
          self.serial.connect(('localhost', 5555))
          self.serial.settimeout(0.1)
          break
      except:
          time.sleep(0.1)
  \<close>
  The result is \<open>None\<close> when the observed clock readings end while the loop is still
  running.
\<close>

fun connect_loop :: "int \<Rightarrow> int \<Rightarrow> (int \<times> attempt) list \<Rightarrow> runner \<times> world \<Rightarrow> (runner \<times> world) option" where
  "connect_loop start_time timeout [] (s, w) = None"
| "connect_loop start_time timeout ((now, a) # rest) (s, w) =
     (if now - start_time < timeout
      then (case a of
              SocketError \<Rightarrow> connect_loop start_time timeout rest (s, w)
            | ConnectError \<Rightarrow>
                connect_loop start_time timeout rest
                  (s\<lparr>serial := Some (next_id w)\<rparr>,
                   w\<lparr>log := log w @ [Socket (next_id w)], next_id := Suc (next_id w)\<rparr>)
            | Connected \<Rightarrow>
                Some (s\<lparr>serial := Some (next_id w)\<rparr>,
                      w\<lparr>log := log w @ [Socket (next_id w), Connect (next_id w)],
                        next_id := Suc (next_id w)\<rparr>))
      else Some (s, w))"

text \<open>
  What \<open>start\<close> meets outside: whether the old subprocess exits when \<open>stop\<close> waits
  for it, whether \<open>subprocess.Popen\<close> succeeds, the first clock reading, and the passes
  of the connection loop.
\<close>

record start_env =
  stop_exits :: bool
  popen_ok :: bool
  clock0 :: int
  attempts :: "(int \<times> attempt) list"

text \<open>
  \<^verbatim>\<open>
  def start(self, boot_image, timeout=5):
      if self.process:
          self.stop()
      cmd = [...]
      self.process = subprocess.Popen(cmd, stdout=subprocess.PIPE, stderr=subprocess.PIPE)
      time.sleep(0.5)
      <connection loop>
      if not self.serial:
          raise RuntimeError("Failed to connect to QEMU serial port")
      self.reader_thread = threading.Thread(target=self._reader)
      self.reader_thread.daemon = True
      self.reader_thread.start()
      return self
  \<close>
  An exception of \<open>stop\<close> or of \<open>Popen\<close> leaves \<open>start\<close> at once.
\<close>

definition start :: "string \<Rightarrow> int \<Rightarrow> start_env \<Rightarrow> runner \<times> world \<Rightarrow> (unit result \<times> runner \<times> world) option" where
  "start boot_image timeout env sw =
     (case (if process (fst sw) \<noteq> None then stop (stop_exits env) sw else (Return (), sw)) of
        (Raise e, s1, w1) \<Rightarrow> Some (Raise e, s1, w1)
      | (Return u, s1, w1) \<Rightarrow>
          if \<not> popen_ok env then Some (Raise OSError, s1, w1)
          else
            (case connect_loop (clock0 env) timeout (attempts env)
                    (s1\<lparr>process := Some (next_id w1)\<rparr>,
                     w1\<lparr>log := log w1 @ [Popen (next_id w1) boot_image],
                        next_id := Suc (next_id w1)\<rparr>) of
               None \<Rightarrow> None
             | Some (s2, w2) \<Rightarrow>
                 if serial s2 = None
                 then Some (Raise (RuntimeError ''Failed to connect to QEMU serial port''), s2, w2)
                 else Some (Return (),
                            s2\<lparr>reader_thread := Some (next_id w2)\<rparr>,
                            w2\<lparr>log := log w2 @ [ThreadStart (next_id w2)],
                               next_id := Suc (next_id w2)\<rparr>)))"

section \<open>\<open>QEMURunner.send\<close>, \<open>read_line\<close> and \<open>read_until\<close>\<close>

text \<open>
  What \<open>send\<close> is given: a \<open>str\<close>, which is a sequence of Unicode code points
  (numbers up to \<open>0x10FFFF\<close>), or \<open>bytes\<close>.
\<close>

datatype pydata = Str "nat list" | Bytes bytes

text \<open>
  \<open>str.encode()\<close>, which encodes in UTF-8 and is strict: a surrogate code point
  (\<open>0xD800\<close> to \<open>0xDFFF\<close>) has no encoding and raises \<open>UnicodeEncodeError\<close>.
\<close>

definition surrogate :: "nat \<Rightarrow> bool" where
  "surrogate cp \<longleftrightarrow> 0xD800 \<le> cp \<and> cp \<le> 0xDFFF"

definition utf8 :: "nat \<Rightarrow> bytes result" where
  "utf8 cp =
     (if cp < 0x80 then Return [char_of cp]
      else if cp < 0x800 then Return [char_of (0xC0 + cp div 64), char_of (0x80 + cp mod 64)]
      else if surrogate cp then Raise UnicodeEncodeError
      else if cp < 0x10000
      then Return [char_of (0xE0 + cp div 4096), char_of (0x80 + cp div 64 mod 64),
                   char_of (0x80 + cp mod 64)]
      else Return [char_of (0xF0 + cp div 262144), char_of (0x80 + cp div 4096 mod 64),
                   char_of (0x80 + cp div 64 mod 64), char_of (0x80 + cp mod 64)])"

fun encode :: "nat list \<Rightarrow> bytes result" where
  "encode [] = Return []"
| "encode (cp # cps) =
     (case utf8 cp of
        Raise e \<Rightarrow> Raise e
      | Return b \<Rightarrow> (case encode cps of Raise e \<Rightarrow> Raise e | Return bs \<Rightarrow> Return (b @ bs)))"

text \<open>
  \<^verbatim>\<open>
      if isinstance(data, str):
          data = data.encode()
  \<close>
\<close>

definition to_bytes :: "pydata \<Rightarrow> bytes result" where
  "to_bytes data = (case data of Str cps \<Rightarrow> encode cps | Bytes b \<Rightarrow> Return b)"

text \<open>The data for which these two lines raise: a \<open>str\<close> that holds a surrogate.\<close>

definition unencodable :: "pydata \<Rightarrow> bool" where
  "unencodable data = (case data of Str cps \<Rightarrow> list_ex surrogate cps | Bytes b \<Rightarrow> False)"

text \<open>
  \<^verbatim>\<open>
  def send(self, data):
      if isinstance(data, str):
          data = data.encode()
      self.serial.send(data)
  \<close>
  The encoding comes first and its exception leaves \<open>send\<close> at once.  With
  \<open>self.serial\<close> being \<open>None\<close> the attribute lookup raises \<open>AttributeError\<close>;
  \<open>send_ok\<close> says whether the socket accepts the bytes.
\<close>

definition send :: "bool \<Rightarrow> pydata \<Rightarrow> runner \<times> world \<Rightarrow> unit result \<times> runner \<times> world" where
  "send send_ok data sw =
     (case sw of (s, w) \<Rightarrow>
        (case to_bytes data of
           Raise e \<Rightarrow> (Raise e, s, w)
         | Return b \<Rightarrow>
             (case serial s of
                None \<Rightarrow> (Raise AttributeError, s, w)
              | Some k \<Rightarrow>
                  if send_ok then (Return (), s, w\<lparr>log := log w @ [Send k b]\<rparr>)
                  else (Raise OSError, s, w))))"

text \<open>
  \<open>queue.Queue.get(timeout=t)\<close> for a number \<open>t\<close> (milliseconds here; every call in
  the repository passes a number): a negative \<open>t\<close> raises \<open>ValueError\<close>; otherwise
  the front item is returned, or \<open>queue.Empty\<close> is raised when nothing was put before
  the wait ran out.
\<close>

definition queue_get :: "int \<Rightarrow> bytes list \<Rightarrow> (bytes \<times> bytes list) result" where
  "queue_get timeout q =
     (if timeout < 0 then Raise ValueError
      else (case q of [] \<Rightarrow> Raise Empty | x # q' \<Rightarrow> Return (x, q')))"

text \<open>
  \<^verbatim>\<open>
  def read_line(self, timeout=2):
      try:
          return self.output_queue.get(timeout=timeout)
      except queue.Empty:
          return None
  \<close>
\<close>

definition read_line :: "int \<Rightarrow> runner \<Rightarrow> bytes option result \<times> runner" where
  "read_line timeout s =
     (case queue_get timeout (output_queue s) of
        Return (x, q') \<Rightarrow> (Return (Some x), s\<lparr>output_queue := q'\<rparr>)
      | Raise Empty \<Rightarrow> (Return None, s)
      | Raise e \<Rightarrow> (Raise e, s))"

text \<open>
  \<^verbatim>\<open>
  def read_until(self, expected, timeout=5):
      start_time = time.time()
      lines = []
      while time.time() - start_time < timeout:
          line = self.read_line(timeout=0.1)
          if line:
              lines.append(line)
              if expected.encode() in line:
                  return lines
      return lines
  \<close>
  Each pass of the loop comes with the clock reading of its guard and with the lines that
  the background reader puts into the queue before the \<open>get\<close> of that pass returns.
  \<open>expected\<close> is the pattern already encoded.  Besides \<open>lines\<close> the model returns
  \<open>dequeued\<close>, the list of every line that \<open>read_line\<close> handed to the loop; the source
  has no such variable, it is there to state what the call took from the queue.
\<close>

fun read_until_loop ::
  "bytes \<Rightarrow> int \<Rightarrow> int \<Rightarrow> (int \<times> bytes list) list \<Rightarrow> bytes list \<Rightarrow> bytes list \<Rightarrow> runner
   \<Rightarrow> (bytes list result \<times> bytes list \<times> runner) option" where
  "read_until_loop expected timeout start_time [] lines dequeued s = None"
| "read_until_loop expected timeout start_time ((now, arrivals) # rest) lines dequeued s =
     (if now - start_time < timeout
      then (case read_line 100 (s\<lparr>output_queue := output_queue s @ arrivals\<rparr>) of
              (Raise e, s') \<Rightarrow> Some (Raise e, dequeued, s')
            | (Return None, s') \<Rightarrow>
                read_until_loop expected timeout start_time rest lines dequeued s'
            | (Return (Some line), s') \<Rightarrow>
                if line \<noteq> []
                then (if sublist expected line
                      then Some (Return (lines @ [line]), dequeued @ [line], s')
                      else read_until_loop expected timeout start_time rest
                             (lines @ [line]) (dequeued @ [line]) s')
                else read_until_loop expected timeout start_time rest
                       lines (dequeued @ [line]) s')
      else Some (Return lines, dequeued, s))"

definition read_until ::
  "bytes \<Rightarrow> int \<Rightarrow> int \<Rightarrow> (int \<times> bytes list) list \<Rightarrow> runner
   \<Rightarrow> (bytes list result \<times> bytes list \<times> runner) option" where
  "read_until expected timeout start_time passes s =
     read_until_loop expected timeout start_time passes [] [] s"

section \<open>The background reader \<open>QEMURunner._reader\<close>\<close>

text \<open>
  What one \<open>self.serial.recv(1024)\<close> does: it returns bytes (none when the peer has shut
  down; at most 1024 in the program, any number in the model), raises \<open>socket.timeout\<close>,
  or raises anything else (the socket was closed by \<open>stop\<close>, the connection broke,
  \<open>self.serial\<close> became \<open>None\<close> after the guard).
\<close>

datatype recv = Data bytes | Timeout | OtherError

record reader_state =
  buffer :: bytes
  alive :: bool

definition new_reader :: reader_state where
  "new_reader = \<lparr>buffer = [], alive = True\<rparr>"

text \<open>
  \<^verbatim>\<open>
  def _reader(self):
      buffer = b''
      while self.serial:
          try:
              data = self.serial.recv(1024)
              if data:
                  buffer += data
                  while b'\n' in buffer:
                      line, buffer = buffer.split(b'\n', 1)
                      self.output_queue.put(line.strip())
          except socket.timeout:
              pass
          except:
              break
  \<close>
  \<open>reader_iter\<close> is one pass of the outer loop on the shared session and the thread's
  own state; a thread that has left the loop does nothing more.
\<close>

definition reader_iter :: "recv \<Rightarrow> runner \<times> reader_state \<Rightarrow> runner \<times> reader_state" where
  "reader_iter ev sr =
     (case sr of (s, r) \<Rightarrow>
        if \<not> alive r then (s, r)
        else if serial s = None then (s, r\<lparr>alive := False\<rparr>)
        else (case ev of
                Data d \<Rightarrow>
                  if d \<noteq> []
                  then (case drain (buffer r @ d) (output_queue s) of
                          (b, q) \<Rightarrow> (s\<lparr>output_queue := q\<rparr>, r\<lparr>buffer := b\<rparr>))
                  else (s, r)
              | Timeout \<Rightarrow> (s, r)
              | OtherError \<Rightarrow> (s, r\<lparr>alive := False\<rparr>)))"

definition reader :: "recv list \<Rightarrow> runner \<times> reader_state \<Rightarrow> runner \<times> reader_state" where
  "reader evs sr = fold reader_iter evs sr"


section \<open>Runs of a \<open>QEMURunner\<close>\<close>

text \<open>
  The calls a test makes on the fixture, and the passes of the reader threads that
  \<open>start\<close> has started (one thread state per thread id), in the order in which they
  take effect.
\<close>

datatype call =
    Start string int start_env
  | Stop bool
  | SendData bool pydata
  | ReadLine int
  | ReadUntil bytes int int "(int \<times> bytes list) list"
  | ReaderPass nat recv

type_synonym system = "runner \<times> world \<times> (nat \<rightharpoonup> reader_state)"

definition init_system :: system where
  "init_system = (init, init_world, Map.empty)"

fun exec :: "call \<Rightarrow> system \<Rightarrow> system option" where
  "exec (Start boot_image timeout env) (s, w, ths) =
     (case start boot_image timeout env (s, w) of
        None \<Rightarrow> None
      | Some (Return u, s', w') \<Rightarrow>
          Some (s', w', (case reader_thread s' of
                           Some t \<Rightarrow> ths(t \<mapsto> new_reader)
                         | None \<Rightarrow> ths))
      | Some (Raise e, s', w') \<Rightarrow> Some (s', w', ths))"
| "exec (Stop exits) (s, w, ths) =
     (case stop exits (s, w) of (res, s', w') \<Rightarrow> Some (s', w', ths))"
| "exec (SendData send_ok data) (s, w, ths) =
     (case send send_ok data (s, w) of (res, s', w') \<Rightarrow> Some (s', w', ths))"
| "exec (ReadLine timeout) (s, w, ths) =
     (case read_line timeout s of (res, s') \<Rightarrow> Some (s', w, ths))"
| "exec (ReadUntil expected timeout t0 passes) (s, w, ths) =
     (case read_until expected timeout t0 passes s of
        None \<Rightarrow> None
      | Some (res, dq, s') \<Rightarrow> Some (s', w, ths))"
| "exec (ReaderPass t ev) (s, w, ths) =
     (case ths t of
        None \<Rightarrow> Some (s, w, ths)
      | Some r \<Rightarrow> (case reader_iter ev (s, r) of (s', r') \<Rightarrow> Some (s', w, ths(t \<mapsto> r'))))"

fun run :: "call list \<Rightarrow> system \<Rightarrow> system option" where
  "run [] sys = Some sys"
| "run (c # cs) sys = (case exec c sys of None \<Rightarrow> None | Some sys' \<Rightarrow> run cs sys')"

text \<open>
  One reader thread and the callers of \<open>read_line\<close>, interleaved in any order: the
  result lists the lines that the \<open>read_line\<close> calls returned, in call order.
\<close>

datatype action = Pass recv | Get int

fun interleave :: "action list \<Rightarrow> runner \<times> reader_state \<Rightarrow> bytes list \<times> runner \<times> reader_state" where
  "interleave [] (s, r) = ([], s, r)"
| "interleave (Pass ev # acts) (s, r) = interleave acts (reader_iter ev (s, r))"
| "interleave (Get timeout # acts) (s, r) =
     (case read_line timeout s of
        (Return (Some line), s') \<Rightarrow>
          (case interleave acts (s', r) of (ls, fin) \<Rightarrow> (line # ls, fin))
      | (other, s') \<Rightarrow> interleave acts (s', r))"

fun passes_of :: "action list \<Rightarrow> recv list" where
  "passes_of [] = []"
| "passes_of (Pass ev # acts) = ev # passes_of acts"
| "passes_of (Get timeout # acts) = passes_of acts"

text \<open>The byte stream that a sequence of \<open>recv\<close> results delivers.\<close>

fun stream_of :: "recv list \<Rightarrow> bytes" where
  "stream_of [] = []"
| "stream_of (Data d # evs) = d @ stream_of evs"
| "stream_of (ev # evs) = stream_of evs"

text \<open>A stream written as newline-terminated segments followed by an unterminated rest.\<close>

definition join_nl :: "bytes list \<Rightarrow> bytes \<Rightarrow> bytes" where
  "join_nl segs rest = concat (map (\<lambda>l. l @ [NL]) segs) @ rest"

section \<open>\<open>QEMUManager\<close> of \<^verbatim>\<open>setup.py\<close>\<close>

text \<open>
  The fields \<open>process\<close> and \<open>serial\<close> of \<open>QEMUManager\<close> (\<open>monitor\<close> is never
  assigned after \<open>__init__\<close>).
\<close>

record manager =
  m_process :: "pid option"
  m_serial :: "sock option"

definition m_init :: manager where
  "m_init = \<lparr>m_process = None, m_serial = None\<rparr>"

definition boot_image_path :: string where
  "boot_image_path = ''boot.bin''"

text \<open>
  \<^verbatim>\<open>
  def stop_qemu(self):
      if self.process:
          self.process.terminate()
          self.process.wait()
          self.process = None
      if self.serial:
          self.serial.close()
          self.serial = None
  \<close>
  The \<open>wait\<close> has no timeout: when the subprocess does not exit the call never returns,
  which is the result \<open>None\<close>.
\<close>

definition stop_qemu :: "bool \<Rightarrow> manager \<times> world \<Rightarrow> (manager \<times> world) option" where
  "stop_qemu exits mw =
     (case mw of (m, w) \<Rightarrow>
        (case (case m_process m of
                 Some p \<Rightarrow>
                   if exits
                   then Some (m\<lparr>m_process := None\<rparr>, w\<lparr>log := log w @ [Terminate p, Wait p]\<rparr>)
                   else None
               | None \<Rightarrow> Some (m, w)) of
           None \<Rightarrow> None
         | Some (m1, w1) \<Rightarrow>
             (case m_serial m1 of
                Some k \<Rightarrow> Some (m1\<lparr>m_serial := None\<rparr>, w1\<lparr>log := log w1 @ [Close k]\<rparr>)
              | None \<Rightarrow> Some (m1, w1))))"

record mstart_env =
  m_stop_exits :: bool
  m_popen_ok :: bool
  m_attempt :: attempt

text \<open>
  \<^verbatim>\<open>
  def start_qemu(self):
      if self.process:
          self.stop_qemu()
      cmd = [...]
      self.process = subprocess.Popen(cmd)
      time.sleep(1)
      try:
          import socket
          self.serial = socket.socket(socket.AF_INET, socket.SOCK_STREAM)
          self.serial.connect(('localhost', 5555))
          self.serial.settimeout(0.1)
      except:
          return False, "Failed to connect to serial port"
      return True, "QEMU started successfully"
  \<close>
\<close>

definition start_qemu ::
  "mstart_env \<Rightarrow> manager \<times> world \<Rightarrow> ((bool \<times> string) result \<times> manager \<times> world) option" where
  "start_qemu env mw =
     (case (if m_process (fst mw) \<noteq> None then stop_qemu (m_stop_exits env) mw else Some mw) of
        None \<Rightarrow> None
      | Some (m1, w1) \<Rightarrow>
          if \<not> m_popen_ok env then Some (Raise OSError, m1, w1)
          else
            (case (m1\<lparr>m_process := Some (next_id w1)\<rparr>,
                   w1\<lparr>log := log w1 @ [Popen (next_id w1) boot_image_path],
                      next_id := Suc (next_id w1)\<rparr>) of
               (m2, w2) \<Rightarrow>
                 (case m_attempt env of
                    SocketError \<Rightarrow>
                      Some (Return (False, ''Failed to connect to serial port''), m2, w2)
                  | ConnectError \<Rightarrow>
                      Some (Return (False, ''Failed to connect to serial port''),
                            m2\<lparr>m_serial := Some (next_id w2)\<rparr>,
                            w2\<lparr>log := log w2 @ [Socket (next_id w2)],
                               next_id := Suc (next_id w2)\<rparr>)
                  | Connected \<Rightarrow>
                      Some (Return (True, ''QEMU started successfully''),
                            m2\<lparr>m_serial := Some (next_id w2)\<rparr>,
                            w2\<lparr>log := log w2 @ [Socket (next_id w2), Connect (next_id w2)],
                               next_id := Suc (next_id w2)\<rparr>))))"

text \<open>
  \<^verbatim>\<open>
  def send_serial(self, data):
      if self.serial:
          if isinstance(data, str):
              data = data.encode()
          self.serial.send(data)
          return True
      return False
  \<close>
  Here the test of \<open>self.serial\<close> comes before the encoding.
\<close>

definition send_serial :: "bool \<Rightarrow> pydata \<Rightarrow> manager \<times> world \<Rightarrow> bool result \<times> manager \<times> world" where
  "send_serial send_ok data mw =
     (case mw of (m, w) \<Rightarrow>
        (case m_serial m of
           Some k \<Rightarrow>
             (case to_bytes data of
                Raise e \<Rightarrow> (Raise e, m, w)
              | Return b \<Rightarrow>
                  if send_ok then (Return True, m, w\<lparr>log := log w @ [Send k b]\<rparr>)
                  else (Raise OSError, m, w))
         | None \<Rightarrow> (Return False, m, w)))"

text \<open>Runs of the manager behind the \<open>/flash\<close>, \<open>/reset\<close> and \<open>/serial\<close> endpoints.\<close>

datatype m_call = StartQemu mstart_env | StopQemu bool | SendSerial bool pydata

fun m_exec :: "m_call \<Rightarrow> manager \<times> world \<Rightarrow> (manager \<times> world) option" where
  "m_exec (StartQemu env) mw =
     (case start_qemu env mw of None \<Rightarrow> None | Some (res, mw') \<Rightarrow> Some mw')"
| "m_exec (StopQemu exits) mw = stop_qemu exits mw"
| "m_exec (SendSerial send_ok data) mw =
     (case send_serial send_ok data mw of (res, mw') \<Rightarrow> Some mw')"

fun m_run :: "m_call list \<Rightarrow> manager \<times> world \<Rightarrow> (manager \<times> world) option" where
  "m_run [] mw = Some mw"
| "m_run (c # cs) mw = (case m_exec c mw of None \<Rightarrow> None | Some mw' \<Rightarrow> m_run cs mw')"

text \<open>
  The invariant of both classes: the subprocesses still live are exactly the one that the
  \<open>process\<close> field holds, if it holds one, and there never were two at a time.
\<close>

definition single_live :: "pid option \<Rightarrow> effect list \<Rightarrow> bool" where
  "single_live proc es \<longleftrightarrow>
     live es = (case proc of None \<Rightarrow> [] | Some p \<Rightarrow> [p]) \<and> never_two [] es"

section \<open>Properties of the line framer\<close>

lemma drain_no_nl: "NL \<notin> set b \<Longrightarrow> drain b q = (b, q)"
  by (simp add: drain.simps)

lemma split1_seg: "NL \<notin> set l \<Longrightarrow> split1 (l @ NL # b) = (l, b)"
  by (induction l) (auto simp: split1_def)

lemma drain_seg: "NL \<notin> set l \<Longrightarrow> drain (l @ NL # b) q = drain b (q @ [strip l])"
  by (subst drain.simps) (simp add: split1_seg)

lemma drain_segs:
  "\<forall>l\<in>set segs. NL \<notin> set l \<Longrightarrow>
   drain (concat (map (\<lambda>l. l @ [NL]) segs) @ x) q = drain x (q @ map strip segs)"
  by (induction segs arbitrary: q) (simp_all add: drain_seg)

lemma drain_join:
  "\<forall>l\<in>set segs. NL \<notin> set l \<Longrightarrow> NL \<notin> set rest \<Longrightarrow>
   drain (join_nl segs rest) q = (rest, q @ map strip segs)"
  by (simp add: join_nl_def drain_segs drain_no_nl)

lemma join_nl_exists:
  "\<exists>segs rest. b = join_nl segs rest \<and> (\<forall>l\<in>set segs. NL \<notin> set l) \<and> NL \<notin> set rest"
proof (induction b)
  case Nil
  have "[] = join_nl [] []" by (simp add: join_nl_def)
  then show ?case by fastforce
next
  case (Cons c b)
  then obtain segs rest where b: "b = join_nl segs rest"
    and segs: "\<forall>l\<in>set segs. NL \<notin> set l" and rest: "NL \<notin> set rest"
    by blast
  show ?case
  proof (cases "c = NL")
    case True
    then have "c # b = join_nl ([] # segs) rest" using b by (simp add: join_nl_def)
    with segs rest show ?thesis by (intro exI[of _ "[] # segs"] exI[of _ rest]) simp
  next
    case False
    show ?thesis
    proof (cases segs)
      case Nil
      then have "c # b = join_nl [] (c # rest)" using b by (simp add: join_nl_def)
      with False rest show ?thesis by (intro exI[of _ "[]"] exI[of _ "c # rest"]) simp
    next
      case (Cons l ls)
      then have "c # b = join_nl ((c # l) # ls) rest" using b by (simp add: join_nl_def)
      with False segs rest Cons show ?thesis
        by (intro exI[of _ "(c # l) # ls"] exI[of _ rest]) simp
    qed
  qed
qed

lemma drain_append:
  "drain (a @ b) q = drain (fst (drain a q) @ b) (snd (drain a q))"
proof -
  obtain segs rest where a: "a = join_nl segs rest"
    and segs: "\<forall>l\<in>set segs. NL \<notin> set l" and rest: "NL \<notin> set rest"
    using join_nl_exists by blast
  have "drain (a @ b) q = drain (rest @ b) (q @ map strip segs)"
    using segs by (simp add: a join_nl_def drain_segs)
  moreover have "drain a q = (rest, q @ map strip segs)"
    using segs rest by (simp add: a drain_join)
  ultimately show ?thesis by simp
qed

lemma drain_fst_no_nl: "NL \<notin> set (fst (drain b q))"
proof -
  obtain segs rest where a: "b = join_nl segs rest"
    and segs: "\<forall>l\<in>set segs. NL \<notin> set l" and rest: "NL \<notin> set rest"
    using join_nl_exists by blast
  then show ?thesis by (simp add: drain_join)
qed

lemma drain_queue: "drain b q = (fst (drain b []), q @ snd (drain b []))"
proof -
  obtain segs rest where a: "b = join_nl segs rest"
    and segs: "\<forall>l\<in>set segs. NL \<notin> set l" and rest: "NL \<notin> set rest"
    using join_nl_exists by blast
  then show ?thesis by (simp add: drain_join)
qed

lemma reader_Nil: "reader [] sr = sr"
  by (simp add: reader_def)

lemma reader_Cons: "reader (ev # evs) sr = reader evs (reader_iter ev sr)"
  by (simp add: reader_def)

lemma reader_stream:
  "alive r \<Longrightarrow> serial s \<noteq> None \<Longrightarrow> NL \<notin> set (buffer r) \<Longrightarrow> OtherError \<notin> set evs \<Longrightarrow>
   reader evs (s, r) =
     (s\<lparr>output_queue := snd (drain (buffer r @ stream_of evs) (output_queue s))\<rparr>,
      r\<lparr>buffer := fst (drain (buffer r @ stream_of evs) (output_queue s))\<rparr>)"
proof (induction evs arbitrary: s r)
  case Nil
  then show ?case by (simp add: reader_Nil drain_no_nl)
next
  case (Cons ev evs)
  show ?case
  proof (cases ev)
    case (Data d)
    show ?thesis
    proof (cases "d = []")
      case True
      have "reader_iter ev (s, r) = (s, r)"
        using Cons.prems True Data by (auto simp: reader_iter_def)
      then show ?thesis using Cons True Data by (simp add: reader_Cons)
    next
      case False
      define b1 where "b1 = fst (drain (buffer r @ d) (output_queue s))"
      define q1 where "q1 = snd (drain (buffer r @ d) (output_queue s))"
      have it: "reader_iter ev (s, r) = (s\<lparr>output_queue := q1\<rparr>, r\<lparr>buffer := b1\<rparr>)"
        using Cons.prems False Data by (auto simp: reader_iter_def b1_def q1_def split: prod.splits)
      have nl: "NL \<notin> set b1" by (simp add: b1_def drain_fst_no_nl)
      have "reader evs (s\<lparr>output_queue := q1\<rparr>, r\<lparr>buffer := b1\<rparr>) =
            (s\<lparr>output_queue := snd (drain (b1 @ stream_of evs) q1)\<rparr>,
             r\<lparr>buffer := fst (drain (b1 @ stream_of evs) q1)\<rparr>)"
        using Cons.IH[of "r\<lparr>buffer := b1\<rparr>" "s\<lparr>output_queue := q1\<rparr>"] Cons.prems nl by simp
      moreover have "drain (buffer r @ stream_of (ev # evs)) (output_queue s) = drain (b1 @ stream_of evs) q1"
        using drain_append[of "buffer r @ d" "stream_of evs" "output_queue s"]
        by (simp add: Data b1_def q1_def)
      ultimately show ?thesis by (simp add: reader_Cons it)
    qed
  next
    case Timeout
    have "reader_iter ev (s, r) = (s, r)"
      using Cons.prems Timeout by (auto simp: reader_iter_def)
    then show ?thesis using Cons Timeout by (simp add: reader_Cons)
  next
    case OtherError
    then show ?thesis using Cons.prems by simp
  qed
qed

lemma stream_of_map_Data: "stream_of (map Data chunks) = concat chunks"
  by (induction chunks) simp_all

lemma reader_dead: "\<not> alive r \<Longrightarrow> reader evs (s, r) = (s, r)"
  by (induction evs) (simp_all add: reader_Nil reader_Cons reader_iter_def)

lemma reader_no_serial: "serial s = None \<Longrightarrow> output_queue (fst (reader evs (s, r))) = output_queue s"
proof (cases evs)
  case Nil
  then show ?thesis by (simp add: reader_Nil)
next
  case (Cons ev evs')
  assume none: "serial s = None"
  show ?thesis
  proof (cases "alive r")
    case True
    with none have "reader_iter ev (s, r) = (s, r\<lparr>alive := False\<rparr>)"
      by (simp add: reader_iter_def)
    then show ?thesis using Cons by (simp add: reader_Cons reader_dead)
  next
    case False
    then show ?thesis by (simp add: reader_dead)
  qed
qed

text \<open>
  C3 (chunk-boundary independence): for every byte stream and every way of cutting it
  into the chunks that successive \<open>recv\<close> calls return, a reader thread that starts
  with its empty buffer enqueues the same lines as when the whole stream comes in one
  \<open>recv\<close>.
\<close>

theorem chunk_boundary_independence:
  "output_queue (fst (reader (map Data chunks) (s, new_reader))) =
   output_queue (fst (reader [Data (concat chunks)] (s, new_reader)))"
proof (cases "serial s = None")
  case True
  then show ?thesis by (simp add: reader_no_serial)
next
  case False
  have a: "alive new_reader" and b: "NL \<notin> set (buffer new_reader)"
    by (simp_all add: new_reader_def)
  have "OtherError \<notin> set (map Data chunks)" by auto
  from reader_stream[OF a False b this]
  have l: "output_queue (fst (reader (map Data chunks) (s, new_reader))) =
        snd (drain (concat chunks) (output_queue s))"
    by (simp add: stream_of_map_Data new_reader_def)
  have "OtherError \<notin> set [Data (concat chunks)]" by simp
  from reader_stream[OF a False b this]
  have "output_queue (fst (reader [Data (concat chunks)] (s, new_reader))) =
        snd (drain (concat chunks) (output_queue s))"
    by (simp add: new_reader_def)
  with l show ?thesis by simp
qed

lemma strip_mid:
  "dropWhile is_space l = strip l @ rev (takeWhile is_space (rev (dropWhile is_space l)))"
proof -
  define m where "m = dropWhile is_space l"
  have "m = rev (dropWhile is_space (rev m)) @ rev (takeWhile is_space (rev m))"
    by (metis rev_append rev_rev_ident takeWhile_dropWhile_id)
  then show ?thesis by (simp add: strip_def rstrip_def lstrip_def m_def)
qed

lemma strip_decompose:
  "l = takeWhile is_space l @ strip l @ rev (takeWhile is_space (rev (dropWhile is_space l)))"
proof -
  have "l = takeWhile is_space l @ dropWhile is_space l" by simp
  then show ?thesis using strip_mid[of l] by simp
qed

lemma strip_ends:
  assumes "strip l \<noteq> []"
  shows "\<not> is_space (hd (strip l)) \<and> \<not> is_space (last (strip l))"
proof -
  define m where "m = dropWhile is_space l"
  have s: "strip l = rev (dropWhile is_space (rev m))"
    by (simp add: strip_def rstrip_def lstrip_def m_def)
  with assms have ne: "dropWhile is_space (rev m) \<noteq> []" by simp
  then have "\<not> is_space (hd (dropWhile is_space (rev m)))" by (rule hd_dropWhile)
  then have last: "\<not> is_space (last (strip l))" using ne by (simp add: s last_rev)
  have "m = strip l @ rev (takeWhile is_space (rev m))"
    unfolding m_def by (rule strip_mid)
  with assms have "hd m = hd (strip l)" and "m \<noteq> []"
    by (metis hd_append2, metis append_is_Nil_conv)
  moreover have "m \<noteq> [] \<Longrightarrow> \<not> is_space (hd m)" unfolding m_def by (rule hd_dropWhile)
  ultimately show ?thesis using last by simp
qed

text \<open>
  C5, as amended: a line that the framer emits is the buffer prefix up to the first
  newline with the ASCII whitespace removed at both ends, as \<open>bytes.strip()\<close> does:
  the prefix is some whitespace, then the emitted line, then some whitespace, and a
  non-empty emitted line neither begins nor ends with whitespace.  Leading whitespace is
  not kept.
\<close>

theorem emitted_line_is_stripped_prefix:
  assumes "NL \<notin> set l"
  shows "split1 (l @ NL # tail) = (l, tail) \<and>
         drain (l @ NL # tail) q = drain tail (q @ [strip l]) \<and>
         (\<exists>pre post. l = pre @ strip l @ post \<and> list_all is_space pre \<and> list_all is_space post) \<and>
         (strip l \<noteq> [] \<longrightarrow> \<not> is_space (hd (strip l)) \<and> \<not> is_space (last (strip l)))"
proof -
  have "list_all is_space (takeWhile is_space l)"
    by (simp add: list_all_iff) (metis set_takeWhileD)
  moreover have "list_all is_space (rev (takeWhile is_space (rev (dropWhile is_space l))))"
    by (simp add: list_all_iff) (metis set_takeWhileD)
  ultimately have "\<exists>pre post. l = pre @ strip l @ post \<and> list_all is_space pre \<and> list_all is_space post"
    using strip_decompose[of l] by blast
  then show ?thesis
    using assms strip_ends[of l] by (simp add: split1_seg drain_seg)
qed

theorem emitted_line_is_stripped_prefix_witness:
  "NL \<notin> set ''  hi '' \<and> strip ''  hi '' \<noteq> [] \<and>
   drain (''  hi '' @ NL # ''x'') [] = (''x'', [''hi'']) \<and>
   \<not> is_space (hd (strip ''  hi '')) \<and> \<not> is_space (last (strip ''  hi ''))"
proof -
  have n: "NL \<notin> set ''  hi ''" by (simp add: NL_def)
  have x: "NL \<notin> set ''x''" by (simp add: NL_def)
  have s: "strip ''  hi '' = ''hi''"
    by (simp add: strip_def rstrip_def lstrip_def is_space_def)
  from emitted_line_is_stripped_prefix[OF n, of "''x''" "[]"] n s x
  show ?thesis by (simp add: drain_no_nl)
qed

text \<open>
  C5 as the specification words it (only trailing whitespace trimmed, leading bytes
  kept) fails on the chunk \<^verbatim>\<open>b"  hi\n"\<close>: the framer enqueues \<^verbatim>\<open>b"hi"\<close>.
\<close>

theorem leading_whitespace_counterexample:
  "snd (drain (''  hi'' @ [NL]) []) = [''hi''] \<and>
   ''hi'' \<noteq> rstrip (fst (split1 (''  hi'' @ [NL])))"
proof -
  have n: "NL \<notin> set ''  hi''" by (simp add: NL_def)
  have "drain (''  hi'' @ [NL]) [] = drain [] [strip ''  hi'']"
    using drain_seg[OF n, of "[]" "[]"] by simp
  moreover have "strip ''  hi'' = ''hi''"
    by (simp add: strip_def rstrip_def lstrip_def is_space_def)
  moreover have "rstrip ''  hi'' = ''  hi''"
    by (simp add: rstrip_def is_space_def)
  ultimately show ?thesis using split1_seg[OF n, of "[]"] by (simp add: drain_no_nl)
qed

lemma reader_timeout: "serial s \<noteq> None \<Longrightarrow> reader_iter Timeout (s, r) = (s, r)"
  by (auto simp: reader_iter_def)

lemma reader_iter_alive:
  "alive (snd (reader_iter ev (s, r))) \<longleftrightarrow> alive r \<and> serial s \<noteq> None \<and> ev \<noteq> OtherError"
  by (cases ev) (auto simp: reader_iter_def split: prod.splits)

lemma reader_iter_serial: "serial (fst (reader_iter ev (s, r))) = serial s"
  by (cases ev) (auto simp: reader_iter_def split: prod.splits)

lemma reader_alive:
  "alive (snd (reader evs (s, r))) \<longleftrightarrow>
   alive r \<and> (evs = [] \<or> serial s \<noteq> None \<and> OtherError \<notin> set evs)"
proof (induction evs arbitrary: s r)
  case Nil
  then show ?case by (simp add: reader_Nil)
next
  case (Cons ev evs)
  obtain s1 r1 where it: "reader_iter ev (s, r) = (s1, r1)" by (cases "reader_iter ev (s, r)")
  have a: "alive r1 \<longleftrightarrow> alive r \<and> serial s \<noteq> None \<and> ev \<noteq> OtherError"
    using reader_iter_alive[of ev s r] it by simp
  have b: "serial s1 = serial s" using reader_iter_serial[of ev s r] it by simp
  show ?case using Cons.IH[of s1 r1] a b by (auto simp: reader_Cons it)
qed

text \<open>
  C8: a \<open>recv\<close> that times out changes nothing and the loop goes on with the next
  pass, however many timeouts come in a row; the thread has left its loop after some
  passes exactly when one of them found \<open>self.serial\<close> cleared (the stop signal) or
  had \<open>recv\<close> fail with something other than a timeout (the connection closed or
  broken).  The same holds pass by pass, in whatever state the session is at that pass.
\<close>

theorem reader_loop_exit:
  "(serial s \<noteq> None \<longrightarrow> reader (replicate n Timeout @ evs) (s, r) = reader evs (s, r)) \<and>
   (alive (snd (reader evs (s, r))) \<longleftrightarrow>
      alive r \<and> (evs = [] \<or> serial s \<noteq> None \<and> OtherError \<notin> set evs)) \<and>
   (alive (snd (reader_iter ev (s, r))) \<longleftrightarrow>
      alive r \<and> serial s \<noteq> None \<and> ev \<noteq> OtherError)"
proof -
  have "serial s \<noteq> None \<Longrightarrow> reader (replicate n Timeout @ evs) (s, r) = reader evs (s, r)"
    by (induction n) (simp_all add: reader_Cons reader_timeout)
  then show ?thesis using reader_alive[of evs s r] reader_iter_alive[of ev s r] by blast
qed

theorem reader_loop_exit_witness:
  "serial (init\<lparr>serial := Some 0\<rparr>) \<noteq> None \<and>
   reader (replicate 2 Timeout @ [Data (''ok'' @ [NL])]) (init\<lparr>serial := Some 0\<rparr>, new_reader) =
     reader [Data (''ok'' @ [NL])] (init\<lparr>serial := Some 0\<rparr>, new_reader) \<and>
   alive (snd (reader [Timeout, Timeout] (init\<lparr>serial := Some 0\<rparr>, new_reader))) \<and>
   \<not> alive (snd (reader [Timeout, OtherError] (init\<lparr>serial := Some 0\<rparr>, new_reader)))"
  using reader_loop_exit[of "init\<lparr>serial := Some 0\<rparr>" 2 "[Data (''ok'' @ [NL])]" new_reader]
    reader_loop_exit[of "init\<lparr>serial := Some 0\<rparr>" 0 "[Timeout, Timeout]" new_reader]
    reader_loop_exit[of "init\<lparr>serial := Some 0\<rparr>" 0 "[Timeout, OtherError]" new_reader Timeout]
  by (simp add: new_reader_def init_def)

section \<open>The reader, \<open>stop\<close> and the queue\<close>

lemma stop_serial: "serial (fst (snd (stop exits (s, w)))) = None"
  by (simp add: stop_def split: option.splits)

lemma stop_queue: "output_queue (fst (snd (stop exits (s, w)))) = output_queue s"
  by (simp add: stop_def split: option.splits)




lemma reader_iter_shape:
  "\<exists>E r'. \<forall>q. reader_iter ev (s\<lparr>output_queue := q\<rparr>, r) = (s\<lparr>output_queue := q @ E\<rparr>, r')"
proof (cases "alive r \<and> serial s \<noteq> None \<and> (\<exists>d. ev = Data d \<and> d \<noteq> [])")
  case True
  then obtain d where d: "ev = Data d" "d \<noteq> []" by blast
  have "\<forall>q. reader_iter ev (s\<lparr>output_queue := q\<rparr>, r) =
      (s\<lparr>output_queue := q @ snd (drain (buffer r @ d) [])\<rparr>, r\<lparr>buffer := fst (drain (buffer r @ d) [])\<rparr>)"
  proof
    fix q
    have "drain (buffer r @ d) q = (fst (drain (buffer r @ d) []), q @ snd (drain (buffer r @ d) []))"
      by (rule drain_queue)
    then show "reader_iter ev (s\<lparr>output_queue := q\<rparr>, r) =
      (s\<lparr>output_queue := q @ snd (drain (buffer r @ d) [])\<rparr>, r\<lparr>buffer := fst (drain (buffer r @ d) [])\<rparr>)"
      using True d by (auto simp: reader_iter_def)
  qed
  then show ?thesis by blast
next
  case False
  then have "\<forall>q. reader_iter ev (s\<lparr>output_queue := q\<rparr>, r) =
     (s\<lparr>output_queue := q @ []\<rparr>, snd (reader_iter ev (s, r)))"
    by (cases ev) (auto simp: reader_iter_def)
  then show ?thesis by blast
qed

lemma reader_shape:
  "\<exists>E r'. \<forall>q. reader evs (s\<lparr>output_queue := q\<rparr>, r) = (s\<lparr>output_queue := q @ E\<rparr>, r')"
proof (induction evs arbitrary: s r)
  case Nil
  have "\<forall>q. reader [] (s\<lparr>output_queue := q\<rparr>, r) = (s\<lparr>output_queue := q @ []\<rparr>, r)"
    by (simp add: reader_Nil)
  then show ?case by blast
next
  case (Cons ev evs)
  obtain E1 r1 where 1: "\<And>q. reader_iter ev (s\<lparr>output_queue := q\<rparr>, r) = (s\<lparr>output_queue := q @ E1\<rparr>, r1)"
    using reader_iter_shape[of ev s r] by blast
  obtain E2 r2 where 2: "\<And>q. reader evs (s\<lparr>output_queue := q\<rparr>, r1) = (s\<lparr>output_queue := q @ E2\<rparr>, r2)"
    using Cons.IH[of s r1] by blast
  have "\<forall>q. reader (ev # evs) (s\<lparr>output_queue := q\<rparr>, r) = (s\<lparr>output_queue := q @ (E1 @ E2)\<rparr>, r2)"
  proof
    fix q
    show "reader (ev # evs) (s\<lparr>output_queue := q\<rparr>, r) = (s\<lparr>output_queue := q @ (E1 @ E2)\<rparr>, r2)"
      using 1[of q] 2[of "q @ E1"] by (simp add: reader_Cons)
  qed
  then show ?case by blast
qed

lemma read_line_cases:
  "read_line t s = (Raise ValueError, s) \<and> t < 0 \<or>
   read_line t s = (Return None, s) \<and> output_queue s = [] \<or>
   (\<exists>l q. output_queue s = l # q \<and> read_line t s = (Return (Some l), s\<lparr>output_queue := q\<rparr>))"
  by (cases "output_queue s") (auto simp: read_line_def queue_get_def)

lemma interleave_conservation:
  "fst (interleave acts (s, r)) @ output_queue (fst (snd (interleave acts (s, r)))) =
   output_queue s @ output_queue (fst (reader (passes_of acts) (s\<lparr>output_queue := []\<rparr>, r)))"
proof (induction acts arbitrary: s r)
  case Nil
  then show ?case by (simp add: reader_Nil)
next
  case (Cons a acts)
  show ?case
  proof (cases a)
    case (Pass ev)
    obtain E1 r1 where 1: "\<And>q. reader_iter ev (s\<lparr>output_queue := q\<rparr>, r) = (s\<lparr>output_queue := q @ E1\<rparr>, r1)"
      using reader_iter_shape[of ev s r] by blast
    obtain E2 r2 where 2: "\<And>q. reader (passes_of acts) (s\<lparr>output_queue := q\<rparr>, r1) = (s\<lparr>output_queue := q @ E2\<rparr>, r2)"
      using reader_shape[of "passes_of acts" s r1] by blast
    have it: "reader_iter ev (s, r) = (s\<lparr>output_queue := output_queue s @ E1\<rparr>, r1)"
      using 1[of "output_queue s"] by simp
    have "fst (interleave acts (s\<lparr>output_queue := output_queue s @ E1\<rparr>, r1)) @
          output_queue (fst (snd (interleave acts (s\<lparr>output_queue := output_queue s @ E1\<rparr>, r1)))) =
          (output_queue s @ E1) @ E2"
      using Cons.IH[of "s\<lparr>output_queue := output_queue s @ E1\<rparr>" r1] 2[of "[]"] by simp
    moreover have "reader (passes_of (a # acts)) (s\<lparr>output_queue := []\<rparr>, r) = (s\<lparr>output_queue := E1 @ E2\<rparr>, r2)"
      using 1[of "[]"] 2[of "E1"] by (simp add: Pass reader_Cons)
    ultimately show ?thesis by (simp add: Pass it)
  next
    case (Get t)
    from read_line_cases[of t s] show ?thesis
    proof (elim disjE conjE exE)
      assume "read_line t s = (Raise ValueError, s)"
      then show ?thesis using Cons.IH[of s r] by (simp add: Get)
    next
      assume "read_line t s = (Return None, s)"
      then show ?thesis using Cons.IH[of s r] by (simp add: Get)
    next
      fix l q
      assume q: "output_queue s = l # q" and rl: "read_line t s = (Return (Some l), s\<lparr>output_queue := q\<rparr>)"
      show ?thesis using Cons.IH[of "s\<lparr>output_queue := q\<rparr>" r] q
        by (auto simp: Get rl split: prod.splits)
    qed
  qed
qed

lemma read_line_front:
  "0 \<le> t \<Longrightarrow> output_queue s = l # q \<Longrightarrow>
   read_line t s = (Return (Some l), s\<lparr>output_queue := q\<rparr>)"
  by (simp add: read_line_def queue_get_def)

lemma read_line_empty:
  "0 \<le> t \<Longrightarrow> output_queue s = [] \<Longrightarrow> read_line t s = (Return None, s)"
  by (simp add: read_line_def queue_get_def)

lemma interleave_append:
  "interleave (a1 @ a2) (s, r) =
     (case interleave a1 (s, r) of
        (ls1, s1, r1) \<Rightarrow> (case interleave a2 (s1, r1) of (ls2, fin) \<Rightarrow> (ls1 @ ls2, fin)))"
proof (induction a1 arbitrary: s r)
  case Nil
  then show ?case by (simp split: prod.splits)
next
  case (Cons a a1)
  show ?case
  proof (cases a)
    case (Pass ev)
    obtain s1 r1 where it: "reader_iter ev (s, r) = (s1, r1)" by (cases "reader_iter ev (s, r)")
    show ?thesis using Cons.IH[of s1 r1] by (simp add: Pass it)
  next
    case (Get t)
    from read_line_cases[of t s] show ?thesis
    proof (elim disjE conjE exE)
      assume "read_line t s = (Raise ValueError, s)"
      then show ?thesis using Cons.IH[of s r] by (simp add: Get)
    next
      assume "read_line t s = (Return None, s)"
      then show ?thesis using Cons.IH[of s r] by (simp add: Get)
    next
      fix l q
      assume rl: "read_line t s = (Return (Some l), s\<lparr>output_queue := q\<rparr>)"
      show ?thesis using Cons.IH[of "s\<lparr>output_queue := q\<rparr>" r]
        by (auto simp: Get rl split: prod.splits)
    qed
  qed
qed

lemma interleave_gets:
  "0 \<le> t \<Longrightarrow>
   interleave (replicate n (Get t)) (s, r) =
     (take n (output_queue s), s\<lparr>output_queue := drop n (output_queue s)\<rparr>, r)"
proof (induction n arbitrary: s)
  case 0
  then show ?case by simp
next
  case (Suc n)
  show ?case
  proof (cases "output_queue s")
    case Nil
    then show ?thesis
      using Suc.IH[OF Suc.prems, of s] read_line_empty[OF Suc.prems, of s] by simp
  next
    case (Cons l q)
    then show ?thesis
      using Suc.IH[OF Suc.prems, of "s\<lparr>output_queue := q\<rparr>"] read_line_front[OF Suc.prems, of s l q]
      by simp
  qed
qed

text \<open>
  C6: one reader thread and any number of \<open>read_line\<close> calls, interleaved in any
  order.  The lines already in the queue, followed by the lines that the reader frames
  from what it receives, are exactly the lines that the \<open>read_line\<close> calls return
  followed by the lines still queued at the end: same order, nothing twice, nothing lost.
  A \<open>read_line\<close> with a non-negative timeout on a non-empty queue returns the front
  line, and once as many such calls have followed as lines were still queued, the lines
  returned are exactly the queued and framed lines, in that order.
\<close>

theorem read_line_order:
  "fst (interleave acts (s, r)) @ output_queue (fst (snd (interleave acts (s, r)))) =
     output_queue s @ output_queue (fst (reader (passes_of acts) (s\<lparr>output_queue := []\<rparr>, r))) \<and>
   (0 \<le> t \<and> output_queue s = l # q \<longrightarrow>
      read_line t s = (Return (Some l), s\<lparr>output_queue := q\<rparr>)) \<and>
   (0 \<le> t \<and> length (output_queue (fst (snd (interleave acts (s, r))))) \<le> n \<longrightarrow>
      fst (interleave (acts @ replicate n (Get t)) (s, r)) =
        output_queue s @ output_queue (fst (reader (passes_of acts) (s\<lparr>output_queue := []\<rparr>, r))))"
proof -
  obtain ls1 s1 r1 where i1: "interleave acts (s, r) = (ls1, s1, r1)"
    by (metis prod_cases3)
  have c: "ls1 @ output_queue s1 =
     output_queue s @ output_queue (fst (reader (passes_of acts) (s\<lparr>output_queue := []\<rparr>, r)))"
    using interleave_conservation[of acts s r] i1 by simp
  have "0 \<le> t \<and> length (output_queue s1) \<le> n \<longrightarrow>
      fst (interleave (acts @ replicate n (Get t)) (s, r)) = ls1 @ output_queue s1"
    by (simp add: interleave_append i1 interleave_gets)
  then show ?thesis using c i1 interleave_conservation[of acts s r] read_line_front[of t s l q] by simp
qed

theorem read_line_order_witness:
  "(0::int) \<le> 100 \<and>
   output_queue (init\<lparr>serial := Some 1, output_queue := [''old'']\<rparr>) = ''old'' # [] \<and>
   read_line 100 (init\<lparr>serial := Some 1, output_queue := [''old'']\<rparr>) =
     (Return (Some ''old''), init\<lparr>serial := Some 1, output_queue := []\<rparr>) \<and>
   interleave [Pass (Data (''a'' @ [NL] @ ''b'')), Get 100, Pass (Data (''c'' @ [NL])), Pass Timeout]
     (init\<lparr>serial := Some 1, output_queue := [''old'']\<rparr>, new_reader) =
     ([''old''], init\<lparr>serial := Some 1, output_queue := [''a'', ''bc'']\<rparr>, new_reader) \<and>
   fst (interleave ([Pass (Data (''a'' @ [NL] @ ''b'')), Get 100, Pass (Data (''c'' @ [NL])), Pass Timeout]
                    @ replicate 2 (Get 100))
     (init\<lparr>serial := Some 1, output_queue := [''old'']\<rparr>, new_reader)) =
     [''old'', ''a'', ''bc'']"
proof -
  let ?s = "init\<lparr>serial := Some 1, output_queue := [''old'']\<rparr>"
  let ?acts = "[Pass (Data (''a'' @ [NL] @ ''b'')), Get 100, Pass (Data (''c'' @ [NL])), Pass Timeout]"
  have na: "NL \<notin> set ''a''" and nb: "NL \<notin> set ''b''" and nbc: "NL \<notin> set ''bc''"
    by (simp_all add: NL_def)
  have st: "strip ''a'' = ''a''" "strip ''bc'' = ''bc''"
    by (simp_all add: strip_def rstrip_def lstrip_def is_space_def)
  have d1: "drain (''a'' @ [NL] @ ''b'') [''old''] = (''b'', [''old'', ''a''])"
    using drain_seg[OF na, of "''b''" "[''old'']"] nb by (simp add: drain_no_nl st)
  have d2: "drain (''b'' @ ''c'' @ [NL]) [''a''] = ([], [''a'', ''bc''])"
    using drain_seg[OF nbc, of "[]" "[''a'']"] by (simp add: drain_no_nl st)
  have p1: "reader_iter (Data (''a'' @ [NL] @ ''b'')) (?s, new_reader) =
      (init\<lparr>serial := Some 1, output_queue := [''old'', ''a'']\<rparr>, new_reader\<lparr>buffer := ''b''\<rparr>)"
    using d1 by (simp add: reader_iter_def new_reader_def init_def)
  have p2: "reader_iter (Data (''c'' @ [NL])) (init\<lparr>serial := Some 1, output_queue := [''a'']\<rparr>, new_reader\<lparr>buffer := ''b''\<rparr>) =
      (init\<lparr>serial := Some 1, output_queue := [''a'', ''bc'']\<rparr>, new_reader\<lparr>buffer := []\<rparr>)"
    using d2 by (simp add: reader_iter_def new_reader_def init_def)
  have p3: "reader_iter Timeout (init\<lparr>serial := Some 1, output_queue := [''a'', ''bc'']\<rparr>, new_reader\<lparr>buffer := []\<rparr>) =
      (init\<lparr>serial := Some 1, output_queue := [''a'', ''bc'']\<rparr>, new_reader)"
    by (simp add: reader_iter_def new_reader_def init_def)
  have g: "read_line 100 (init\<lparr>serial := Some 1, output_queue := [''old'', ''a'']\<rparr>) =
      (Return (Some ''old''), init\<lparr>serial := Some 1, output_queue := [''a'']\<rparr>)"
    by (simp add: read_line_def queue_get_def init_def)
  have run: "interleave ?acts (?s, new_reader) =
     ([''old''], init\<lparr>serial := Some 1, output_queue := [''a'', ''bc'']\<rparr>, new_reader)"
    using p1 g p2 p3 by simp
  show ?thesis
    using run read_line_order[of ?acts ?s new_reader 100 "''old''" "[]" 2]
    by simp
qed


section \<open>Properties of \<open>start\<close>, \<open>stop\<close>, \<open>send\<close> and \<open>read_line\<close>\<close>

lemma stop_fields:
  "reader_thread (fst (snd (stop exits (s, w)))) = reader_thread s"
  by (simp add: stop_def split: option.splits)

lemma stop_Return:
  "fst (stop exits (s, w)) = Return u \<Longrightarrow> process (fst (snd (stop exits (s, w)))) = None"
  by (auto simp: stop_def split: option.splits if_splits)

lemma connect_loop_fields:
  "connect_loop t0 timeout atts (s, w) = Some (s', w') \<Longrightarrow>
   process s' = process s \<and> output_queue s' = output_queue s \<and> reader_thread s' = reader_thread s"
proof (induction atts arbitrary: s w)
  case Nil
  then show ?case by simp
next
  case (Cons x atts)
  obtain now a where x: "x = (now, a)" by (cases x)
  show ?case
  proof (cases "now - t0 < timeout")
    case True
    show ?thesis
    proof (cases a)
      case SocketError
      then show ?thesis using Cons.prems Cons.IH[of s w] True x by simp
    next
      case ConnectError
      then show ?thesis
        using Cons.prems True x
          Cons.IH[of "s\<lparr>serial := Some (next_id w)\<rparr>"
            "w\<lparr>log := log w @ [Socket (next_id w)], next_id := Suc (next_id w)\<rparr>"]
        by simp
    next
      case Connected
      then show ?thesis using Cons.prems True x by auto
    qed
  next
    case False
    then show ?thesis using Cons.prems x by simp
  qed
qed

lemma connect_loop_no_socket:
  "\<forall>(now, a)\<in>set atts. now - t0 < timeout \<longrightarrow> a = SocketError \<Longrightarrow>
   connect_loop t0 timeout atts (s, w) = Some (s', w') \<Longrightarrow> s' = s \<and> w' = w"
proof (induction atts)
  case Nil
  then show ?case by simp
next
  case (Cons x atts)
  obtain now a where x: "x = (now, a)" by (cases x)
  show ?case
  proof (cases "now - t0 < timeout")
    case True
    with Cons.prems x have "a = SocketError" by simp
    then show ?thesis using Cons True x by simp
  next
    case False
    then show ?thesis using Cons.prems x by simp
  qed
qed

lemma connect_loop_total:
  "\<exists>(now, a)\<in>set atts. timeout \<le> now - t0 \<Longrightarrow> connect_loop t0 timeout atts (s, w) \<noteq> None"
proof (induction atts arbitrary: s w)
  case Nil
  then show ?case by simp
next
  case (Cons x atts)
  obtain now a where x: "x = (now, a)" by (cases x)
  show ?case
  proof (cases "now - t0 < timeout")
    case True
    with Cons.prems x have "\<exists>(now, a)\<in>set atts. timeout \<le> now - t0" by auto
    then show ?thesis using Cons.IH True x by (cases a) simp_all
  next
    case False
    then show ?thesis using x by simp
  qed
qed

lemma live_snoc: "live (es @ [e]) = apply_effect e (live es)"
  by (simp add: live_def)

lemma start_queue:
  "start boot_image timeout env (s, w) = Some (res, s', w') \<Longrightarrow> output_queue s' = output_queue s"
proof -
  assume a: "start boot_image timeout env (s, w) = Some (res, s', w')"
  obtain r1 s1 w1 where st: "(if process s \<noteq> None then stop (stop_exits env) (s, w) else (Return (), s, w)) = (r1, s1, w1)"
    by (metis prod_cases3)
  have q1: "output_queue s1 = output_queue s"
    using st stop_queue[of "stop_exits env" s w] by (auto split: if_splits)
  show ?thesis
  proof (cases r1)
    case (Raise e)
    then show ?thesis using a st q1 by (simp add: start_def)
  next
    case (Return u)
    show ?thesis
    proof (cases "popen_ok env")
      case False
      then show ?thesis using a st q1 Return by (simp add: start_def)
    next
      case True
      let ?s2 = "s1\<lparr>process := Some (next_id w1)\<rparr>"
      let ?w2 = "w1\<lparr>log := log w1 @ [Popen (next_id w1) boot_image], next_id := Suc (next_id w1)\<rparr>"
      show ?thesis
      proof (cases "connect_loop (clock0 env) timeout (attempts env) (?s2, ?w2)")
        case None
        then show ?thesis using a st Return True by (simp add: start_def)
      next
        case (Some sw3)
        obtain s3 w3 where sw3: "sw3 = (s3, w3)" by (cases sw3)
        have "output_queue s3 = output_queue ?s2"
          using connect_loop_fields[of "clock0 env" timeout "attempts env" ?s2 ?w2 s3 w3] Some sw3
          by simp
        then show ?thesis using a st Return True Some sw3 q1
          by (auto simp: start_def split: if_splits)
      qed
    qed
  qed
qed

lemma send_queue: "output_queue (fst (snd (send send_ok data (s, w)))) = output_queue s"
  by (simp add: send_def split: option.splits result.splits)

text \<open>
  C10: \<open>stop\<close>, \<open>send\<close> and \<open>start\<close> (with or without the restart path, and whether
  it returns or raises) leave the contents of the queue as they were, so a line queued
  before a restart is what the next \<open>read_line\<close> returns.
\<close>

theorem queue_survives_restart:
  "output_queue (fst (snd (stop exits (s, w)))) = output_queue s \<and>
   output_queue (fst (snd (send send_ok data (s, w)))) = output_queue s \<and>
   (start boot_image timeout env (s, w) = Some (res, s', w') \<longrightarrow>
      output_queue s' = output_queue s \<and>
      (output_queue s = l # q \<and> 0 \<le> t \<longrightarrow>
         read_line t s' = (Return (Some l), s'\<lparr>output_queue := q\<rparr>)))"
proof -
  have "start boot_image timeout env (s, w) = Some (res, s', w') \<Longrightarrow>
        output_queue s = l # q \<Longrightarrow> 0 \<le> t \<Longrightarrow>
        read_line t s' = (Return (Some l), s'\<lparr>output_queue := q\<rparr>)"
    using start_queue[of boot_image timeout env s w res s' w']
    by (simp add: read_line_def queue_get_def)
  then show ?thesis
    using start_queue[of boot_image timeout env s w res s' w'] stop_queue send_queue by blast
qed


theorem queue_survives_restart_witness:
  "start ''boot.bin'' 5000 \<lparr>stop_exits = True, popen_ok = True, clock0 = 0, attempts = [(0, Connected)]\<rparr>
     (\<lparr>process = Some 0, serial = Some 1, output_queue = [''old''], reader_thread = Some 2\<rparr>,
      \<lparr>log = [Popen 0 ''boot.bin'', Socket 1, Connect 1, ThreadStart 2], next_id = 3\<rparr>) =
   Some (Return (),
     \<lparr>process = Some 3, serial = Some 4, output_queue = [''old''], reader_thread = Some 5\<rparr>,
     \<lparr>log = [Popen 0 ''boot.bin'', Socket 1, Connect 1, ThreadStart 2, Close 1, Terminate 0, Wait 0,
             Popen 3 ''boot.bin'', Socket 4, Connect 4, ThreadStart 5], next_id = 6\<rparr>) \<and>
   (0::int) \<le> 2000 \<and>
   read_line 2000 \<lparr>process = Some 3, serial = Some 4, output_queue = [''old''], reader_thread = Some 5\<rparr> =
     (Return (Some ''old''),
      \<lparr>process = Some 3, serial = Some 4, output_queue = [], reader_thread = Some 5\<rparr>)"
proof -
  have st: "start ''boot.bin'' 5000 \<lparr>stop_exits = True, popen_ok = True, clock0 = 0, attempts = [(0, Connected)]\<rparr>
     (\<lparr>process = Some 0, serial = Some 1, output_queue = [''old''], reader_thread = Some 2\<rparr>,
      \<lparr>log = [Popen 0 ''boot.bin'', Socket 1, Connect 1, ThreadStart 2], next_id = 3\<rparr>) =
   Some (Return (),
     \<lparr>process = Some 3, serial = Some 4, output_queue = [''old''], reader_thread = Some 5\<rparr>,
     \<lparr>log = [Popen 0 ''boot.bin'', Socket 1, Connect 1, ThreadStart 2, Close 1, Terminate 0, Wait 0,
             Popen 3 ''boot.bin'', Socket 4, Connect 4, ThreadStart 5], next_id = 6\<rparr>)"
    by (simp add: start_def stop_def)
  show ?thesis
    using st queue_survives_restart[of True
        "\<lparr>process = Some 0, serial = Some 1, output_queue = [''old''], reader_thread = Some 2\<rparr>"
        "\<lparr>log = [Popen 0 ''boot.bin'', Socket 1, Connect 1, ThreadStart 2], next_id = 3\<rparr>"
        True "Bytes []" "''boot.bin''" 5000
        "\<lparr>stop_exits = True, popen_ok = True, clock0 = 0, attempts = [(0, Connected)]\<rparr>"
        "Return ()"
        "\<lparr>process = Some 3, serial = Some 4, output_queue = [''old''], reader_thread = Some 5\<rparr>"
        "\<lparr>log = [Popen 0 ''boot.bin'', Socket 1, Connect 1, ThreadStart 2, Close 1, Terminate 0, Wait 0,
             Popen 3 ''boot.bin'', Socket 4, Connect 4, ThreadStart 5], next_id = 6\<rparr>"
        "''old''" "[]" 2000]
    by simp
qed

text \<open>
  When every \<open>connect\<close> is refused, each pass of the loop has already assigned a
  socket object to \<open>self.serial\<close>, so the test \<^verbatim>\<open>if not self.serial\<close> after the loop
  does not fire and \<open>start\<close> returns normally with an unconnected socket.
\<close>

lemma start_connection_refused:
  "start ''boot.bin'' 5000
     \<lparr>stop_exits = True, popen_ok = True, clock0 = 1000,
      attempts = [(1000, ConnectError), (3500, ConnectError), (6000, ConnectError)]\<rparr>
     (init, init_world) =
   Some (Return (),
     \<lparr>process = Some 0, serial = Some 2, output_queue = [], reader_thread = Some 3\<rparr>,
     \<lparr>log = [Popen 0 ''boot.bin'', Socket 1, Socket 2, ThreadStart 3], next_id = 4\<rparr>)"
  by (simp add: start_def init_def init_world_def)

text \<open>
  C1, as amended: when \<open>stop\<close> and \<open>Popen\<close> succeed, no pass of the connection loop
  gets a socket object, and the clock passes the deadline, \<open>start\<close> returns (it does not
  hang) by raising \<open>RuntimeError\<close>, with \<open>self.serial\<close> unset.  It tears nothing down:
  the subprocess it launched is the last effect, is still live and is still held in
  \<open>self.process\<close>.
\<close>

theorem start_without_socket_raises:
  assumes pre: "process s = None \<longrightarrow> serial s = None"
    and stop_ok: "process s \<noteq> None \<longrightarrow> stop_exits env"
    and popen: "popen_ok env"
    and nosock: "\<forall>(now, a)\<in>set (attempts env). now - clock0 env < timeout \<longrightarrow> a = SocketError"
    and deadline: "\<exists>(now, a)\<in>set (attempts env). timeout \<le> now - clock0 env"
  shows "\<exists>s' w' p. start boot_image timeout env (s, w) =
             Some (Raise (RuntimeError ''Failed to connect to QEMU serial port''), s', w') \<and>
           serial s' = None \<and> process s' = Some p \<and> p \<in> set (live (log w')) \<and>
           last (log w') = Popen p boot_image"
proof -
  obtain r1 s1 w1 where st: "(if process s \<noteq> None then stop (stop_exits env) (s, w) else (Return (), s, w)) = (r1, s1, w1)"
    by (metis prod_cases3)
  have r1: "r1 = Return ()" and ser: "serial s1 = None"
    using st pre stop_ok stop_serial[of "stop_exits env" s w]
    by (auto simp: stop_def split: if_splits option.splits)
  let ?p = "next_id w1"
  let ?s2 = "s1\<lparr>process := Some ?p\<rparr>"
  let ?w2 = "w1\<lparr>log := log w1 @ [Popen ?p boot_image], next_id := Suc ?p\<rparr>"
  from connect_loop_total[OF deadline, of ?s2 ?w2]
  obtain s3 w3 where cl: "connect_loop (clock0 env) timeout (attempts env) (?s2, ?w2) = Some (s3, w3)"
    by auto
  from connect_loop_no_socket[OF nosock cl] have eq: "s3 = ?s2" "w3 = ?w2" by simp_all
  have "start boot_image timeout env (s, w) =
          Some (Raise (RuntimeError ''Failed to connect to QEMU serial port''), ?s2, ?w2)"
    using st r1 popen cl eq ser by (simp add: start_def)
  moreover have "?p \<in> set (live (log ?w2))" by (simp add: live_snoc)
  ultimately show ?thesis using ser by simp
qed


theorem start_without_socket_raises_witness:
  "(process \<lparr>process = Some 0, serial = Some 1, output_queue = [], reader_thread = Some 2\<rparr> \<noteq> None) \<and>
   start ''boot.bin'' 0 \<lparr>stop_exits = True, popen_ok = True, clock0 = 7, attempts = [(7, Connected)]\<rparr>
     (\<lparr>process = Some 0, serial = Some 1, output_queue = [], reader_thread = Some 2\<rparr>,
      \<lparr>log = [Popen 0 ''old.bin'', Socket 1, Connect 1, ThreadStart 2], next_id = 3\<rparr>) =
   Some (Raise (RuntimeError ''Failed to connect to QEMU serial port''),
     \<lparr>process = Some 3, serial = None, output_queue = [], reader_thread = Some 2\<rparr>,
     \<lparr>log = [Popen 0 ''old.bin'', Socket 1, Connect 1, ThreadStart 2, Close 1, Terminate 0, Wait 0,
             Popen 3 ''boot.bin''], next_id = 4\<rparr>) \<and>
   3 \<in> set (live [Popen 0 ''old.bin'', Socket 1, Connect 1, ThreadStart 2, Close 1, Terminate 0, Wait 0,
             Popen 3 ''boot.bin''])"
proof -
  let ?s = "\<lparr>process = Some 0, serial = Some 1, output_queue = [], reader_thread = Some 2\<rparr>"
  let ?w = "\<lparr>log = [Popen 0 ''old.bin'', Socket 1, Connect 1, ThreadStart 2], next_id = 3\<rparr>"
  let ?env = "\<lparr>stop_exits = True, popen_ok = True, clock0 = 7, attempts = [(7, Connected)]\<rparr>"
  have 1: "process ?s = None \<longrightarrow> serial ?s = None" by simp
  have 2: "process ?s \<noteq> None \<longrightarrow> stop_exits ?env" by simp
  have 3: "popen_ok ?env" by simp
  have 4: "\<forall>(now, a)\<in>set (attempts ?env). now - clock0 ?env < 0 \<longrightarrow> a = SocketError" by simp
  have 5: "\<exists>(now, a)\<in>set (attempts ?env). 0 \<le> now - clock0 ?env" by simp
  have st: "start ''boot.bin'' 0 ?env (?s, ?w) =
   Some (Raise (RuntimeError ''Failed to connect to QEMU serial port''),
     \<lparr>process = Some 3, serial = None, output_queue = [], reader_thread = Some 2\<rparr>,
     \<lparr>log = [Popen 0 ''old.bin'', Socket 1, Connect 1, ThreadStart 2, Close 1, Terminate 0, Wait 0,
             Popen 3 ''boot.bin''], next_id = 4\<rparr>)"
    by (simp add: start_def stop_def)
  from start_without_socket_raises[where w = ?w and boot_image = "''boot.bin''", OF 1 2 3 4 5] st
  show ?thesis by auto
qed

text \<open>
  C1 as stated fails: after a \<open>start\<close> that exhausts its timeout and raises, the
  subprocess is still running.
\<close>

theorem failed_start_keeps_subprocess_counterexample:
  "start ''boot.bin'' 5000
     \<lparr>stop_exits = True, popen_ok = True, clock0 = 1000,
      attempts = [(1000, SocketError), (3500, SocketError), (6000, SocketError)]\<rparr>
     (init, init_world) =
   Some (Raise (RuntimeError ''Failed to connect to QEMU serial port''),
     \<lparr>process = Some 0, serial = None, output_queue = [], reader_thread = None\<rparr>,
     \<lparr>log = [Popen 0 ''boot.bin''], next_id = 1\<rparr>) \<and>
   live [Popen 0 ''boot.bin''] = [0]"
  by (simp add: start_def init_def init_world_def live_def)

lemma stop_qemu_serial: "stop_qemu exits mw = Some (m, w) \<Longrightarrow> m_serial m = None"
  by (cases mw) (auto simp: stop_qemu_def split: option.splits if_splits)

lemma utf8_Raise: "utf8 cp = Raise e \<longleftrightarrow> e = UnicodeEncodeError \<and> surrogate cp"
  by (auto simp: utf8_def surrogate_def)

lemma encode_unencodable: "list_ex surrogate cps \<Longrightarrow> encode cps = Raise UnicodeEncodeError"
proof (induction cps)
  case Nil
  then show ?case by simp
next
  case (Cons cp cps)
  show ?case
  proof (cases "utf8 cp")
    case (Raise e)
    then show ?thesis using utf8_Raise[of cp e] by simp
  next
    case (Return b)
    then have "\<not> surrogate cp" using utf8_Raise[of cp UnicodeEncodeError] by auto
    then show ?thesis using Cons Return by simp
  qed
qed

lemma encode_encodable: "\<not> list_ex surrogate cps \<Longrightarrow> \<exists>b. encode cps = Return b"
proof (induction cps)
  case Nil
  then show ?case by simp
next
  case (Cons cp cps)
  then obtain bs where bs: "encode cps = Return bs" by auto
  from Cons.prems have "\<not> surrogate cp" by simp
  then obtain b where "utf8 cp = Return b"
    using utf8_Raise[of cp] by (cases "utf8 cp") auto
  then show ?case using bs by simp
qed

lemma to_bytes_cases:
  "(unencodable data \<and> to_bytes data = Raise UnicodeEncodeError) \<or>
   (\<not> unencodable data \<and> (\<exists>b. to_bytes data = Return b))"
  using encode_unencodable encode_encodable
  by (cases data) (auto simp: to_bytes_def unencodable_def)

text \<open>
  C2, as amended: on a session that was never started or has been stopped,
  \<open>QEMURunner.send\<close> sends nothing and raises, \<open>UnicodeEncodeError\<close> when its data
  is a \<open>str\<close> that cannot be encoded and \<open>AttributeError\<close> otherwise;
  \<open>QEMUManager.send_serial\<close> returns \<open>False\<close>; and \<open>read_line\<close> with a non-negative
  timeout does not fail: it returns the front line of the queue if there is one and
  \<open>None\<close> otherwise.
\<close>

theorem not_started_send_and_read_line:
  assumes "s = init \<or> s = fst (snd (stop exits sw))"
    and "m = m_init \<or> stop_qemu m_exits mw = Some (m, mw')"
  shows "send send_ok data (s, w) =
           (Raise (if unencodable data then UnicodeEncodeError else AttributeError), s, w) \<and>
         send_serial send_ok data (m, w) = (Return False, m, w) \<and>
         (0 \<le> t \<longrightarrow>
            read_line t s =
              (case output_queue s of
                 [] \<Rightarrow> (Return None, s)
               | l # q \<Rightarrow> (Return (Some l), s\<lparr>output_queue := q\<rparr>)))"
proof -
  have ser: "serial s = None"
    using assms(1) stop_serial[of exits "fst sw" "snd sw"] by (auto simp: init_def)
  have mser: "m_serial m = None"
    using assms(2) stop_qemu_serial[of m_exits mw m mw'] by (auto simp: m_init_def)
  have "send send_ok data (s, w) =
           (Raise (if unencodable data then UnicodeEncodeError else AttributeError), s, w)"
    using to_bytes_cases[of data] ser by (auto simp: send_def)
  moreover have "send_serial send_ok data (m, w) = (Return False, m, w)"
    using mser by (simp add: send_serial_def)
  moreover have "0 \<le> t \<longrightarrow>
            read_line t s =
              (case output_queue s of
                 [] \<Rightarrow> (Return None, s)
               | l # q \<Rightarrow> (Return (Some l), s\<lparr>output_queue := q\<rparr>))"
    by (simp add: read_line_def queue_get_def split: list.splits)
  ultimately show ?thesis by blast
qed

theorem not_started_send_and_read_line_witness:
  "send True (Str [112]) (init, init_world) = (Raise AttributeError, init, init_world) \<and>
   send True (Str [112, 0xDC80]) (init, init_world) = (Raise UnicodeEncodeError, init, init_world) \<and>
   send True (Bytes ''p'') (init, init_world) = (Raise AttributeError, init, init_world) \<and>
   send_serial True (Str [112]) (m_init, init_world) = (Return False, m_init, init_world) \<and>
   (0::int) \<le> 2000 \<and>
   read_line 2000 init = (Return None, init) \<and>
   read_line 2000 (fst (snd (stop True (init\<lparr>process := Some 0, serial := Some 1, output_queue := [''PONG'']\<rparr>, init_world)))) =
     (Return (Some ''PONG''), init\<lparr>output_queue := []\<rparr>)"
proof -
  have a: "init = init \<or> init = fst (snd (stop True (init, init_world)))" by simp
  have b: "m_init = m_init \<or> stop_qemu True (m_init, init_world) = Some (m_init, init_world)" by simp
  let ?sw = "(init\<lparr>process := Some 0, serial := Some 1, output_queue := [''PONG'']\<rparr>, init_world)"
  have c: "fst (snd (stop True ?sw)) = init \<or> fst (snd (stop True ?sw)) = fst (snd (stop True ?sw))"
    by simp
  have u: "\<not> unencodable (Str [112])" "unencodable (Str [112, 0xDC80])" "\<not> unencodable (Bytes ''p'')"
    by (simp_all add: unencodable_def surrogate_def)
  show ?thesis
    using not_started_send_and_read_line[OF a b, of True "Str [112]" init_world 2000]
      not_started_send_and_read_line[OF a b, of True "Str [112, 0xDC80]" init_world 2000]
      not_started_send_and_read_line[OF a b, of True "Bytes ''p''" init_world 2000]
      not_started_send_and_read_line[OF c b, of True "Str [112]" init_world 2000]
      u
    by (simp add: stop_def init_def)
qed

text \<open>
  C2 as stated fails: \<open>read_line\<close> on a session that was never started returns
  \<open>None\<close> normally.
\<close>

theorem read_line_not_started_counterexample:
  "read_line 2000 init = (Return None, init)"
  by (simp add: read_line_def queue_get_def init_def)

section \<open>Properties of \<open>read_until\<close>\<close>

lemma read_line_100:
  "read_line 100 s =
     (case output_queue s of
        [] \<Rightarrow> (Return None, s)
      | l # q \<Rightarrow> (Return (Some l), s\<lparr>output_queue := q\<rparr>))"
  by (simp add: read_line_def queue_get_def split: list.splits)






section \<open>Teardown order and the single subprocess\<close>

lemma never_two_append:
  "never_two L (es @ es') \<longleftrightarrow> never_two L es \<and> never_two (fold apply_effect es L) es'"
proof (induction es arbitrary: L)
  case Nil
  then show ?case by (cases es') auto
next
  case (Cons e es)
  then show ?case by auto
qed

lemma fold_neutral:
  "\<forall>e\<in>set ext. \<forall>L. apply_effect e L = L \<Longrightarrow> fold apply_effect ext L = L"
  by (induction ext) simp_all

lemma never_two_neutral:
  "\<forall>e\<in>set ext. \<forall>L. apply_effect e L = L \<Longrightarrow> never_two L ext \<longleftrightarrow> length L \<le> 1"
  by (induction ext) simp_all

lemma single_live_neutral:
  assumes "single_live proc es" and "\<forall>e\<in>set ext. \<forall>L. apply_effect e L = L"
  shows "single_live proc (es @ ext)"
proof -
  have "live (es @ ext) = live es"
    using assms(2) by (simp add: live_def fold_neutral)
  moreover have "never_two [] (es @ ext)"
    using assms by (auto simp: single_live_def never_two_append never_two_neutral live_def split: option.splits)
  ultimately show ?thesis using assms(1) by (simp add: single_live_def)
qed

lemma single_live_reap:
  assumes "single_live (Some p) es"
  shows "single_live None (es @ [Terminate p, Wait p])"
  using assms by (simp add: single_live_def live_def never_two_append)

lemma single_live_popen:
  assumes "single_live None es"
  shows "single_live (Some p) (es @ [Popen p img])"
  using assms by (simp add: single_live_def live_def never_two_append)

lemma stop_single_live:
  assumes "single_live (process s) (log w)"
  shows "single_live (process (fst (snd (stop exits (s, w))))) (log (snd (snd (stop exits (s, w)))))"
proof -
  define w1 where "w1 = (case serial s of Some k \<Rightarrow> w\<lparr>log := log w @ [Close k]\<rparr> | None \<Rightarrow> w)"
  have 1: "single_live (process s) (log w1)"
    using single_live_neutral[OF assms, of "[Close k]" for k] assms
    by (simp add: w1_def split: option.splits)
  show ?thesis
  proof (cases "process s")
    case None
    then show ?thesis using 1 by (simp add: stop_def w1_def split: option.splits)
  next
    case (Some p)
    show ?thesis
    proof (cases exits)
      case True
      have "single_live None (log w1 @ [Terminate p, Wait p])"
        using single_live_reap 1 Some by simp
      then show ?thesis using Some True by (simp add: stop_def w1_def split: option.splits)
    next
      case False
      have "single_live (Some p) (log w1 @ [Terminate p])"
        using single_live_neutral[of "Some p" "log w1" "[Terminate p]"] 1 Some by simp
      then show ?thesis using Some False by (simp add: stop_def w1_def split: option.splits)
    qed
  qed
qed

lemma connect_loop_log:
  "connect_loop t0 timeout atts (s, w) = Some (s', w') \<Longrightarrow>
   \<exists>ext. log w' = log w @ ext \<and> (\<forall>e\<in>set ext. \<forall>L. apply_effect e L = L)"
proof (induction atts arbitrary: s w)
  case Nil
  then show ?case by simp
next
  case (Cons x atts)
  obtain now a where x: "x = (now, a)" by (cases x)
  show ?case
  proof (cases "now - t0 < timeout")
    case False
    then have "w' = w" using Cons.prems x by simp
    then show ?thesis by simp
  next
    case True
    show ?thesis
    proof (cases a)
      case SocketError
      then show ?thesis using Cons.prems Cons.IH[of s w] True x by simp
    next
      case ConnectError
      let ?w1 = "w\<lparr>log := log w @ [Socket (next_id w)], next_id := Suc (next_id w)\<rparr>"
      from ConnectError Cons.prems True x
      have "connect_loop t0 timeout atts (s\<lparr>serial := Some (next_id w)\<rparr>, ?w1) = Some (s', w')"
        by simp
      from Cons.IH[OF this] obtain ext where
        "log w' = log ?w1 @ ext" "\<forall>e\<in>set ext. \<forall>L. apply_effect e L = L" by blast
      then have "log w' = log w @ (Socket (next_id w) # ext) \<and>
                 (\<forall>e\<in>set (Socket (next_id w) # ext). \<forall>L. apply_effect e L = L)"
        by simp
      then show ?thesis by blast
    next
      case Connected
      then have "log w' = log w @ [Socket (next_id w), Connect (next_id w)]"
        using Cons.prems True x by auto
      moreover have "\<forall>e\<in>set [Socket (next_id w), Connect (next_id w)]. \<forall>L. apply_effect e L = L"
        by simp
      ultimately show ?thesis by blast
    qed
  qed
qed

lemma start_single_live:
  assumes inv: "single_live (process s) (log w)"
    and st: "start boot_image timeout env (s, w) = Some (res, s', w')"
  shows "single_live (process s') (log w')"
proof -
  obtain r1 s1 w1 where pre: "(if process s \<noteq> None then stop (stop_exits env) (s, w) else (Return (), s, w)) = (r1, s1, w1)"
    by (metis prod_cases3)
  have inv1: "single_live (process s1) (log w1)"
    using pre inv stop_single_live[OF inv, of "stop_exits env"] by (auto split: if_splits)
  show ?thesis
  proof (cases r1)
    case (Raise e)
    then show ?thesis using st pre inv1 by (simp add: start_def)
  next
    case (Return u)
    have none: "process s1 = None"
      using pre Return stop_Return[of "stop_exits env" s w u] by (auto split: if_splits)
    show ?thesis
    proof (cases "popen_ok env")
      case False
      then show ?thesis using st pre inv1 Return by (simp add: start_def)
    next
      case True
      let ?s2 = "s1\<lparr>process := Some (next_id w1)\<rparr>"
      let ?w2 = "w1\<lparr>log := log w1 @ [Popen (next_id w1) boot_image], next_id := Suc (next_id w1)\<rparr>"
      have inv2: "single_live (process ?s2) (log ?w2)"
        using single_live_popen[of "log w1" "next_id w1" boot_image] inv1 none by simp
      show ?thesis
      proof (cases "connect_loop (clock0 env) timeout (attempts env) (?s2, ?w2)")
        case None
        then show ?thesis using st pre Return True by (simp add: start_def)
      next
        case (Some sw3)
        obtain s3 w3 where sw3: "sw3 = (s3, w3)" by (cases sw3)
        have cl: "connect_loop (clock0 env) timeout (attempts env) (?s2, ?w2) = Some (s3, w3)"
          using Some sw3 by simp
        from connect_loop_log[OF cl] obtain ext where
          ext: "log w3 = log ?w2 @ ext" "\<forall>e\<in>set ext. \<forall>L. apply_effect e L = L" by blast
        have p3: "process s3 = process ?s2" using connect_loop_fields[OF cl] by simp
        have inv3: "single_live (process s3) (log w3)"
          using single_live_neutral[OF inv2 ext(2)] ext(1) p3 by simp
        have inv4: "single_live (process s3) (log w3 @ [ThreadStart (next_id w3)])"
          using single_live_neutral[OF inv3, of "[ThreadStart (next_id w3)]"] by simp
        show ?thesis using st pre Return True cl inv3 inv4
          by (auto simp: start_def split: if_splits)
      qed
    qed
  qed
qed

lemma send_single_live:
  assumes "single_live (process s) (log w)"
  shows "single_live (process (fst (snd (send send_ok data (s, w)))))
           (log (snd (snd (send send_ok data (s, w)))))"
proof (cases "serial s")
  case None
  then show ?thesis using assms by (simp add: send_def split: result.splits)
next
  case (Some k)
  have "single_live (process s) (log w @ [Send k b])" for b
    using single_live_neutral[OF assms, of "[Send k b]"] by simp
  then show ?thesis using assms Some by (simp add: send_def split: result.splits)
qed

lemma read_line_process: "process (snd (read_line t s)) = process s"
  using read_line_cases[of t s] by auto

lemma read_until_loop_process:
  "read_until_loop expected timeout t0 passes lines dq s = Some (res, dq', s') \<Longrightarrow>
   process s' = process s"
proof (induction passes arbitrary: lines dq s)
  case Nil
  then show ?case by simp
next
  case (Cons x passes)
  obtain now arr where x: "x = (now, arr)" by (cases x)
  show ?case
  proof (cases "now - t0 < timeout")
    case False
    then show ?thesis using Cons.prems x by simp
  next
    case True
    show ?thesis
    proof (cases "output_queue s @ arr")
      case Nil
      then show ?thesis
        using Cons.prems True x Cons.IH[of lines dq "s\<lparr>output_queue := output_queue s @ arr\<rparr>"]
        by (simp add: read_line_100)
    next
      case (Cons line q1)
      then show ?thesis
        using Cons.prems True x
          Cons.IH[of "lines @ [line]" "dq @ [line]" "s\<lparr>output_queue := q1\<rparr>"]
          Cons.IH[of lines "dq @ [line]" "s\<lparr>output_queue := q1\<rparr>"]
        by (auto simp: read_line_100 split: if_splits)
    qed
  qed
qed

lemma reader_iter_process: "process (fst (reader_iter ev (s, r))) = process s"
proof -
  obtain E r' where "\<And>q. reader_iter ev (s\<lparr>output_queue := q\<rparr>, r) = (s\<lparr>output_queue := q @ E\<rparr>, r')"
    using reader_iter_shape[of ev s r] by blast
  from this[of "output_queue s"] show ?thesis by simp
qed

lemma exec_single_live:
  assumes inv: "single_live (process s) (log w)"
    and ex: "exec c (s, w, ths) = Some (s', w', ths')"
  shows "single_live (process s') (log w')"
proof (cases c)
  case (Start boot_image timeout env)
  then obtain res where "start boot_image timeout env (s, w) = Some (res, s', w')"
    using ex by (auto split: option.splits result.splits)
  then show ?thesis using start_single_live[OF inv] by blast
next
  case (Stop exits)
  then have "s' = fst (snd (stop exits (s, w)))" "w' = snd (snd (stop exits (s, w)))"
    using ex by (auto split: prod.splits)
  then show ?thesis using stop_single_live[OF inv, of exits] by simp
next
  case (SendData send_ok data)
  then have "s' = fst (snd (send send_ok data (s, w)))" "w' = snd (snd (send send_ok data (s, w)))"
    using ex by (auto split: prod.splits)
  then show ?thesis using send_single_live[OF inv, of send_ok data] by simp
next
  case (ReadLine t)
  then have "s' = snd (read_line t s)" "w' = w"
    using ex by (auto split: prod.splits)
  then show ?thesis using inv by (simp add: read_line_process)
next
  case (ReadUntil expected timeout t0 passes)
  then obtain res dq where "read_until expected timeout t0 passes s = Some (res, dq, s')" and "w' = w"
    using ex by (auto split: option.splits)
  then show ?thesis using inv read_until_loop_process[of expected timeout t0 passes "[]" "[]" s res dq s']
    by (simp add: read_until_def)
next
  case (ReaderPass t ev)
  show ?thesis
  proof (cases "ths t")
    case None
    then show ?thesis using ex inv ReaderPass by simp
  next
    case (Some r)
    then have "s' = fst (reader_iter ev (s, r))" "w' = w"
      using ex ReaderPass by (auto split: prod.splits)
    then show ?thesis using inv by (simp add: reader_iter_process)
  qed
qed

lemma run_single_live:
  "single_live (process s) (log w) \<Longrightarrow> run cs (s, w, ths) = Some (s', w', ths') \<Longrightarrow>
   single_live (process s') (log w')"
proof (induction cs arbitrary: s w ths)
  case Nil
  then show ?case by simp
next
  case (Cons c cs)
  from Cons.prems(2) obtain s1 w1 ths1 where
    1: "exec c (s, w, ths) = Some (s1, w1, ths1)" and 2: "run cs (s1, w1, ths1) = Some (s', w', ths')"
    by (auto split: option.splits)
  from exec_single_live[OF Cons.prems(1) 1] have "single_live (process s1) (log w1)" .
  from Cons.IH[OF this 2] show ?case .
qed

lemma stop_qemu_single_live:
  assumes inv: "single_live (m_process m) (log w)"
    and st: "stop_qemu exits (m, w) = Some (m', w')"
  shows "single_live (m_process m') (log w') \<and> m_process m' = None"
proof -
  obtain m1 w1 where 1: "(case m_process m of
                 Some p \<Rightarrow>
                   if exits
                   then Some (m\<lparr>m_process := None\<rparr>, w\<lparr>log := log w @ [Terminate p, Wait p]\<rparr>)
                   else None
               | None \<Rightarrow> Some (m, w)) = Some (m1, w1)"
    using st by (auto simp: stop_qemu_def split: option.splits if_splits)
  have inv1: "single_live (m_process m1) (log w1) \<and> m_process m1 = None"
  proof (cases "m_process m")
    case None
    then show ?thesis using 1 inv by auto
  next
    case (Some p)
    then show ?thesis using 1 inv single_live_reap[of p "log w"] by (auto split: if_splits)
  qed
  show ?thesis
  proof (cases "m_serial m1")
    case None
    then show ?thesis using st 1 inv1 by (auto simp: stop_qemu_def split: option.splits if_splits)
  next
    case (Some k)
    have "single_live (m_process m1) (log w1 @ [Close k])"
      using single_live_neutral[of "m_process m1" "log w1" "[Close k]"] inv1 by auto
    moreover have "m' = m1\<lparr>m_serial := None\<rparr>" "w' = w1\<lparr>log := log w1 @ [Close k]\<rparr>"
      using st 1 Some by (auto simp: stop_qemu_def split: option.splits if_splits)
    ultimately show ?thesis using inv1 by simp
  qed
qed

lemma start_qemu_single_live:
  assumes inv: "single_live (m_process m) (log w)"
    and st: "start_qemu env (m, w) = Some (res, m', w')"
  shows "single_live (m_process m') (log w')"
proof -
  obtain m1 w1 where pre: "(if m_process m \<noteq> None then stop_qemu (m_stop_exits env) (m, w) else Some (m, w)) = Some (m1, w1)"
    using st by (auto simp: start_qemu_def split: option.splits)
  have inv1: "single_live (m_process m1) (log w1)" and none: "m_process m1 = None"
    using pre inv stop_qemu_single_live[OF inv, of "m_stop_exits env" m1 w1]
    by (auto split: if_splits)
  show ?thesis
  proof (cases "m_popen_ok env")
    case False
    then show ?thesis using st pre inv1 by (simp add: start_qemu_def)
  next
    case True
    let ?p = "next_id w1"
    let ?es = "log w1 @ [Popen ?p boot_image_path]"
    have inv2: "single_live (Some ?p) ?es"
      using single_live_popen[of "log w1" ?p boot_image_path] inv1 none by simp
    have a: "single_live (Some ?p) (?es @ [Socket (Suc ?p)])"
      using single_live_neutral[OF inv2, of "[Socket (Suc ?p)]"] by simp
    have b: "single_live (Some ?p) (?es @ [Socket (Suc ?p), Connect (Suc ?p)])"
      using single_live_neutral[OF inv2, of "[Socket (Suc ?p), Connect (Suc ?p)]"] by simp
    show ?thesis
      using st pre True inv2 a b
      by (cases "m_attempt env") (auto simp: start_qemu_def)
  qed
qed

lemma send_serial_single_live:
  assumes "single_live (m_process m) (log w)"
  shows "single_live (m_process (fst (snd (send_serial send_ok data (m, w)))))
           (log (snd (snd (send_serial send_ok data (m, w)))))"
proof (cases "m_serial m")
  case None
  then show ?thesis using assms by (simp add: send_serial_def)
next
  case (Some k)
  have "single_live (m_process m) (log w @ [Send k b])" for b
    using single_live_neutral[OF assms, of "[Send k b]"] by simp
  then show ?thesis using assms Some by (simp add: send_serial_def split: result.splits)
qed

lemma m_run_single_live:
  "single_live (m_process m) (log w) \<Longrightarrow> m_run cs (m, w) = Some (m', w') \<Longrightarrow>
   single_live (m_process m') (log w')"
proof (induction cs arbitrary: m w)
  case Nil
  then show ?case by simp
next
  case (Cons c cs)
  from Cons.prems(2) obtain m1 w1 where
    1: "m_exec c (m, w) = Some (m1, w1)" and 2: "m_run cs (m1, w1) = Some (m', w')"
    by (auto split: option.splits)
  have "single_live (m_process m1) (log w1)"
  proof (cases c)
    case (StartQemu env)
    then obtain res where "start_qemu env (m, w) = Some (res, m1, w1)"
      using 1 by (auto split: option.splits)
    then show ?thesis using start_qemu_single_live[OF Cons.prems(1)] by blast
  next
    case (StopQemu exits)
    then show ?thesis using 1 stop_qemu_single_live[OF Cons.prems(1), of exits m1 w1] by auto
  next
    case (SendSerial send_ok data)
    then have "m1 = fst (snd (send_serial send_ok data (m, w)))"
      "w1 = snd (snd (send_serial send_ok data (m, w)))"
      using 1 by (auto split: prod.splits)
    then show ?thesis using send_serial_single_live[OF Cons.prems(1), of send_ok data] by simp
  qed
  from Cons.IH[OF this 2] show ?case .
qed

lemma single_live_init: "single_live None []"
  by (simp add: single_live_def live_def)

lemma stop_order:
  "serial s = Some k \<Longrightarrow> process s = Some p \<Longrightarrow>
   \<exists>ext. log (snd (snd (stop exits (s, w)))) = log w @ Close k # Terminate p # ext"
  by (simp add: stop_def)

lemma start_log_extends_stop:
  assumes "process s \<noteq> None" and "start boot_image timeout env (s, w) = Some (res, s', w')"
  shows "\<exists>ext. log w' = log (snd (snd (stop (stop_exits env) (s, w)))) @ ext"
proof -
  obtain r1 s1 w1 where pre: "stop (stop_exits env) (s, w) = (r1, s1, w1)"
    by (metis prod_cases3)
  show ?thesis
  proof (cases r1)
    case (Raise e)
    then show ?thesis using assms pre by (simp add: start_def)
  next
    case (Return u)
    show ?thesis
    proof (cases "popen_ok env")
      case False
      then show ?thesis using assms pre Return by (simp add: start_def)
    next
      case True
      let ?s2 = "s1\<lparr>process := Some (next_id w1)\<rparr>"
      let ?w2 = "w1\<lparr>log := log w1 @ [Popen (next_id w1) boot_image], next_id := Suc (next_id w1)\<rparr>"
      show ?thesis
      proof (cases "connect_loop (clock0 env) timeout (attempts env) (?s2, ?w2)")
        case None
        then show ?thesis using assms pre Return True by (simp add: start_def)
      next
        case (Some sw3)
        obtain s3 w3 where sw3: "sw3 = (s3, w3)" by (cases sw3)
        have cl: "connect_loop (clock0 env) timeout (attempts env) (?s2, ?w2) = Some (s3, w3)"
          using Some sw3 by simp
        from connect_loop_log[OF cl] obtain ext where
          ext: "log w3 = log ?w2 @ ext" by blast
        show ?thesis using assms pre Return True cl ext
          by (auto simp: start_def split: if_splits)
      qed
    qed
  qed
qed

text \<open>
  C7, as amended: \<open>QEMURunner.stop\<close>, also when \<open>QEMURunner.start\<close> calls it to
  restart, closes the serial socket before it terminates the subprocess;
  \<open>QEMUManager.stop_qemu\<close> terminates and reaps the subprocess first and closes the
  socket afterwards.  In every run of either class from its initial state, at no moment
  of the run were two launched subprocesses live.
\<close>

theorem close_before_terminate_and_single_subprocess:
  "(serial s = Some k \<and> process s = Some p \<longrightarrow>
      (\<exists>ext. log (snd (snd (stop exits (s, w)))) = log w @ Close k # Terminate p # ext)) \<and>
   (serial s = Some k \<and> process s = Some p \<and>
    start boot_image timeout env (s, w) = Some (res, s', w') \<longrightarrow>
      (\<exists>ext. log w' = log w @ Close k # Terminate p # ext)) \<and>
   (m_serial m = Some k \<and> m_process m = Some p \<and> stop_qemu exits (m, w) = Some (m', mw') \<longrightarrow>
      log mw' = log w @ [Terminate p, Wait p, Close k]) \<and>
   (run cs init_system = Some (s1, w1, ths1) \<longrightarrow> never_two [] (log w1)) \<and>
   (m_run mcs (m_init, init_world) = Some (m2, w2) \<longrightarrow> never_two [] (log w2))"
proof -
  have 1: "serial s = Some k \<and> process s = Some p \<longrightarrow>
      (\<exists>ext. log (snd (snd (stop exits (s, w)))) = log w @ Close k # Terminate p # ext)"
    using stop_order by blast
  have 2: "serial s = Some k \<and> process s = Some p \<and>
    start boot_image timeout env (s, w) = Some (res, s', w') \<longrightarrow>
      (\<exists>ext. log w' = log w @ Close k # Terminate p # ext)"
  proof (intro impI, elim conjE)
    assume a: "serial s = Some k" "process s = Some p"
      and st: "start boot_image timeout env (s, w) = Some (res, s', w')"
    from stop_order[OF a, of "stop_exits env" w] obtain e1 where
      "log (snd (snd (stop (stop_exits env) (s, w)))) = log w @ Close k # Terminate p # e1" by blast
    moreover from start_log_extends_stop[OF _ st] a obtain e2 where
      "log w' = log (snd (snd (stop (stop_exits env) (s, w)))) @ e2" by auto
    ultimately have "log w' = log w @ Close k # Terminate p # (e1 @ e2)" by simp
    then show "\<exists>ext. log w' = log w @ Close k # Terminate p # ext" by blast
  qed
  have 3: "m_serial m = Some k \<and> m_process m = Some p \<and> stop_qemu exits (m, w) = Some (m', mw') \<longrightarrow>
      log mw' = log w @ [Terminate p, Wait p, Close k]"
    by (auto simp: stop_qemu_def split: if_splits)
  have 4: "run cs init_system = Some (s1, w1, ths1) \<longrightarrow> never_two [] (log w1)"
    using run_single_live[of init init_world cs Map.empty s1 w1 ths1] single_live_init
    by (simp add: init_system_def init_def init_world_def single_live_def)
  have 5: "m_run mcs (m_init, init_world) = Some (m2, w2) \<longrightarrow> never_two [] (log w2)"
    using m_run_single_live[of m_init init_world mcs m2 w2] single_live_init
    by (simp add: m_init_def init_world_def single_live_def)
  from 1 2 3 4 5 show ?thesis by blast
qed

theorem close_before_terminate_and_single_subprocess_witness:
  "log (snd (snd (stop True
       (\<lparr>process = Some 0, serial = Some 1, output_queue = [], reader_thread = Some 2\<rparr>,
        \<lparr>log = [Popen 0 ''boot.bin'', Socket 1, Connect 1, ThreadStart 2], next_id = 3\<rparr>)))) =
     [Popen 0 ''boot.bin'', Socket 1, Connect 1, ThreadStart 2] @ [Close 1, Terminate 0, Wait 0] \<and>
   start ''boot.bin'' 5000 \<lparr>stop_exits = True, popen_ok = True, clock0 = 0, attempts = [(0, Connected)]\<rparr>
       (\<lparr>process = Some 0, serial = Some 1, output_queue = [], reader_thread = Some 2\<rparr>,
        \<lparr>log = [Popen 0 ''boot.bin'', Socket 1, Connect 1, ThreadStart 2], next_id = 3\<rparr>) =
     Some (Return (),
       \<lparr>process = Some 3, serial = Some 4, output_queue = [], reader_thread = Some 5\<rparr>,
       \<lparr>log = [Popen 0 ''boot.bin'', Socket 1, Connect 1, ThreadStart 2] @
               [Close 1, Terminate 0, Wait 0, Popen 3 ''boot.bin'', Socket 4, Connect 4, ThreadStart 5],
          next_id = 6\<rparr>) \<and>
   stop_qemu True
       (\<lparr>m_process = Some 0, m_serial = Some 1\<rparr>,
        \<lparr>log = [Popen 0 ''boot.bin'', Socket 1, Connect 1, ThreadStart 2], next_id = 3\<rparr>) =
     Some (\<lparr>m_process = None, m_serial = None\<rparr>,
           \<lparr>log = [Popen 0 ''boot.bin'', Socket 1, Connect 1, ThreadStart 2] @
                   [Terminate 0, Wait 0, Close 1],
              next_id = 3\<rparr>) \<and>
   map_option (\<lambda>(s, w, ths). (s, w))
     (run [Start ''boot.bin'' 5000
             \<lparr>stop_exits = True, popen_ok = True, clock0 = 0,
                attempts = [(0, ConnectError), (100, Connected)]\<rparr>,
           SendData True (Str [112]),
           Start ''boot.bin'' 5000
             \<lparr>stop_exits = True, popen_ok = True, clock0 = 0,
                attempts = [(0, ConnectError), (100, Connected)]\<rparr>,
           Stop True] init_system) =
     Some (\<lparr>process = None, serial = None, output_queue = [], reader_thread = Some 7\<rparr>,
           \<lparr>log = [Popen 0 ''boot.bin'', Socket 1, Socket 2, Connect 2, ThreadStart 3,
                    Send 2 ''p'', Close 2, Terminate 0, Wait 0, Popen 4 ''boot.bin'',
                    Socket 5, Socket 6, Connect 6, ThreadStart 7, Close 6, Terminate 4, Wait 4],
              next_id = 8\<rparr>) \<and>
   never_two [] [Popen 0 ''boot.bin'', Socket 1, Socket 2, Connect 2, ThreadStart 3,
                 Send 2 ''p'', Close 2, Terminate 0, Wait 0, Popen 4 ''boot.bin'',
                 Socket 5, Socket 6, Connect 6, ThreadStart 7, Close 6, Terminate 4, Wait 4] \<and>
   m_run [StartQemu \<lparr>m_stop_exits = True, m_popen_ok = True, m_attempt = Connected\<rparr>,
          SendSerial True (Str [112]),
          StartQemu \<lparr>m_stop_exits = True, m_popen_ok = True, m_attempt = ConnectError\<rparr>,
          StopQemu True] (m_init, init_world) =
     Some (\<lparr>m_process = None, m_serial = None\<rparr>,
           \<lparr>log = [Popen 0 ''boot.bin'', Socket 1, Connect 1, Send 1 ''p'', Terminate 0,
                    Wait 0, Close 1, Popen 2 ''boot.bin'', Socket 3, Terminate 2, Wait 2, Close 3],
              next_id = 4\<rparr>) \<and>
   never_two [] [Popen 0 ''boot.bin'', Socket 1, Connect 1, Send 1 ''p'', Terminate 0,
                 Wait 0, Close 1, Popen 2 ''boot.bin'', Socket 3, Terminate 2, Wait 2, Close 3]"
proof -
  let ?S = "\<lparr>process = Some 0, serial = Some 1, output_queue = [], reader_thread = Some 2\<rparr>"
  let ?W = "\<lparr>log = [Popen 0 ''boot.bin'', Socket 1, Connect 1, ThreadStart 2], next_id = 3\<rparr>"
  let ?E = "\<lparr>stop_exits = True, popen_ok = True, clock0 = 0, attempts = [(0, Connected)]\<rparr>"
  let ?E2 = "\<lparr>stop_exits = True, popen_ok = True, clock0 = 0,
                attempts = [(0, ConnectError), (100, Connected)]\<rparr>"
  let ?cs = "[Start ''boot.bin'' 5000 ?E2, SendData True (Str [112]), Start ''boot.bin'' 5000 ?E2, Stop True]"
  let ?mcs = "[StartQemu \<lparr>m_stop_exits = True, m_popen_ok = True, m_attempt = Connected\<rparr>,
          SendSerial True (Str [112]),
          StartQemu \<lparr>m_stop_exits = True, m_popen_ok = True, m_attempt = ConnectError\<rparr>,
          StopQemu True]"
  let ?S1 = "\<lparr>process = None, serial = None, output_queue = [], reader_thread = Some 7\<rparr>"
  let ?W1 = "\<lparr>log = [Popen 0 ''boot.bin'', Socket 1, Socket 2, Connect 2, ThreadStart 3,
                    Send 2 ''p'', Close 2, Terminate 0, Wait 0, Popen 4 ''boot.bin'',
                    Socket 5, Socket 6, Connect 6, ThreadStart 7, Close 6, Terminate 4, Wait 4],
              next_id = 8\<rparr>"
  let ?M2 = "\<lparr>m_process = None, m_serial = None\<rparr>"
  let ?W2 = "\<lparr>log = [Popen 0 ''boot.bin'', Socket 1, Connect 1, Send 1 ''p'', Terminate 0,
                    Wait 0, Close 1, Popen 2 ''boot.bin'', Socket 3, Terminate 2, Wait 2, Close 3],
              next_id = 4\<rparr>"
  let ?W3 = "\<lparr>log = [Popen 0 ''boot.bin'', Socket 1, Connect 1, ThreadStart 2] @
                   [Terminate 0, Wait 0, Close 1],
              next_id = 3\<rparr>"
  have sq: "stop_qemu True (\<lparr>m_process = Some 0, m_serial = Some 1\<rparr>, ?W) = Some (?M2, ?W3)"
    by (simp add: stop_qemu_def)
  have st: "stop True (?S, ?W) = (Return (), ?S\<lparr>process := None, serial := None\<rparr>,
      ?W\<lparr>log := log ?W @ [Close 1, Terminate 0, Wait 0]\<rparr>)"
    by (simp add: stop_def)
  have sta: "start ''boot.bin'' 5000 ?E (?S, ?W) =
     Some (Return (),
       \<lparr>process = Some 3, serial = Some 4, output_queue = [], reader_thread = Some 5\<rparr>,
       \<lparr>log = [Popen 0 ''boot.bin'', Socket 1, Connect 1, ThreadStart 2] @
               [Close 1, Terminate 0, Wait 0, Popen 3 ''boot.bin'', Socket 4, Connect 4, ThreadStart 5],
          next_id = 6\<rparr>)"
    by (simp add: start_def stop_def)
  have "\<exists>t. run ?cs init_system = Some (?S1, ?W1, t)"
    by (simp add: init_system_def init_def init_world_def start_def stop_def send_def
        to_bytes_def utf8_def char_of_eq_iff)
  then obtain T1 where r: "run ?cs init_system = Some (?S1, ?W1, T1)" ..
  have mr: "m_run ?mcs (m_init, init_world) = Some (?M2, ?W2)"
    by (simp add: m_init_def init_world_def start_qemu_def stop_qemu_def send_serial_def
        boot_image_path_def to_bytes_def utf8_def char_of_eq_iff)
  from close_before_terminate_and_single_subprocess[of ?S 1 0 True ?W "''boot.bin''" 5000 ?E
      "Return ()" "\<lparr>process = Some 3, serial = Some 4, output_queue = [], reader_thread = Some 5\<rparr>"
      "\<lparr>log = [Popen 0 ''boot.bin'', Socket 1, Connect 1, ThreadStart 2] @
               [Close 1, Terminate 0, Wait 0, Popen 3 ''boot.bin'', Socket 4, Connect 4, ThreadStart 5],
          next_id = 6\<rparr>"
      "\<lparr>m_process = Some 0, m_serial = Some 1\<rparr>" ?M2 ?W3 ?cs ?S1 ?W1 T1 ?mcs ?M2 ?W2]
  have "never_two [] (log ?W1) \<and> never_two [] (log ?W2)"
    using r mr by blast
  then show ?thesis using st sta sq r mr by simp
qed

text \<open>
  C7 as stated fails for \<open>QEMUManager.stop_qemu\<close>: the subprocess is terminated and
  reaped while the serial socket is still open, and the socket is closed last.
\<close>

theorem stop_qemu_order_counterexample:
  "stop_qemu True
     (\<lparr>m_process = Some 0, m_serial = Some 1\<rparr>,
      \<lparr>log = [Popen 0 ''boot.bin'', Socket 1, Connect 1], next_id = 2\<rparr>) =
   Some (\<lparr>m_process = None, m_serial = None\<rparr>,
         \<lparr>log = [Popen 0 ''boot.bin'', Socket 1, Connect 1, Terminate 0, Wait 0, Close 1],
            next_id = 2\<rparr>)"
  by (simp add: stop_qemu_def)

section \<open>States that a run reaches\<close>

text \<open>
  In every state that a run of calls reaches from the initial one, a session without
  subprocess has no socket either: the condition on the state under which the failing
  \<open>start\<close> was described above holds wherever \<open>start\<close> can be called.
\<close>

lemma connect_loop_serial:
  "connect_loop t0 timeout atts (s, w) = Some (s', w') \<Longrightarrow> process s \<noteq> None \<Longrightarrow> process s' \<noteq> None"
  using connect_loop_fields[of t0 timeout atts s w s' w'] by simp

lemma start_serial_needs_process:
  assumes inv: "process s = None \<longrightarrow> serial s = None"
    and st: "start boot_image timeout env (s, w) = Some (res, s', w')"
  shows "process s' = None \<longrightarrow> serial s' = None"
proof -
  obtain r1 s1 w1 where pre: "(if process s \<noteq> None then stop (stop_exits env) (s, w) else (Return (), s, w)) = (r1, s1, w1)"
    by (metis prod_cases3)
  have inv1: "process s1 = None \<longrightarrow> serial s1 = None"
    using pre inv stop_serial[of "stop_exits env" s w] by (auto split: if_splits)
  show ?thesis
  proof (cases r1)
    case (Raise e)
    then show ?thesis using st pre inv1 by (simp add: start_def)
  next
    case (Return u)
    show ?thesis
    proof (cases "popen_ok env")
      case False
      then show ?thesis using st pre inv1 Return by (simp add: start_def)
    next
      case True
      let ?s2 = "s1\<lparr>process := Some (next_id w1)\<rparr>"
      let ?w2 = "w1\<lparr>log := log w1 @ [Popen (next_id w1) boot_image], next_id := Suc (next_id w1)\<rparr>"
      show ?thesis
      proof (cases "connect_loop (clock0 env) timeout (attempts env) (?s2, ?w2)")
        case None
        then show ?thesis using st pre Return True by (simp add: start_def)
      next
        case (Some sw3)
        obtain s3 w3 where sw3: "sw3 = (s3, w3)" by (cases sw3)
        have cl: "connect_loop (clock0 env) timeout (attempts env) (?s2, ?w2) = Some (s3, w3)"
          using Some sw3 by simp
        have "process s3 \<noteq> None" using connect_loop_serial[OF cl] by simp
        then show ?thesis using st pre Return True cl
          by (auto simp: start_def split: if_splits)
      qed
    qed
  qed
qed

lemma reader_iter_fields:
  "process (fst (reader_iter ev (s, r))) = process s \<and> serial (fst (reader_iter ev (s, r))) = serial s"
  by (simp add: reader_iter_process reader_iter_serial)

lemma read_until_loop_serial:
  "read_until_loop expected timeout t0 passes lines dq s = Some (res, dq', s') \<Longrightarrow>
   serial s' = serial s"
proof (induction passes arbitrary: lines dq s)
  case Nil
  then show ?case by simp
next
  case (Cons x passes)
  obtain now arr where x: "x = (now, arr)" by (cases x)
  show ?case
  proof (cases "now - t0 < timeout")
    case False
    then show ?thesis using Cons.prems x by simp
  next
    case True
    show ?thesis
    proof (cases "output_queue s @ arr")
      case Nil
      then show ?thesis
        using Cons.prems True x Cons.IH[of lines dq "s\<lparr>output_queue := output_queue s @ arr\<rparr>"]
        by (simp add: read_line_100)
    next
      case (Cons line q1)
      then show ?thesis
        using Cons.prems True x
          Cons.IH[of "lines @ [line]" "dq @ [line]" "s\<lparr>output_queue := q1\<rparr>"]
          Cons.IH[of lines "dq @ [line]" "s\<lparr>output_queue := q1\<rparr>"]
        by (auto simp: read_line_100 split: if_splits)
    qed
  qed
qed

lemma exec_serial_needs_process:
  assumes inv: "process s = None \<longrightarrow> serial s = None"
    and ex: "exec c (s, w, ths) = Some (s', w', ths')"
  shows "process s' = None \<longrightarrow> serial s' = None"
proof (cases c)
  case (Start boot_image timeout env)
  then obtain res where "start boot_image timeout env (s, w) = Some (res, s', w')"
    using ex by (auto split: option.splits result.splits)
  then show ?thesis using start_serial_needs_process[OF inv] by blast
next
  case (Stop exits)
  then have "s' = fst (snd (stop exits (s, w)))"
    using ex by (auto split: prod.splits)
  then show ?thesis by (simp add: stop_serial)
next
  case (SendData send_ok data)
  then have "s' = s"
    using ex by (auto simp: send_def split: prod.splits option.splits if_splits result.splits)
  then show ?thesis using inv by simp
next
  case (ReadLine t)
  then have "s' = snd (read_line t s)"
    using ex by (auto split: prod.splits)
  then show ?thesis using inv read_line_cases[of t s] by auto
next
  case (ReadUntil expected timeout t0 passes)
  then obtain res dq where ru: "read_until expected timeout t0 passes s = Some (res, dq, s')"
    using ex by (auto split: option.splits)
  then show ?thesis
    using inv read_until_loop_process[of expected timeout t0 passes "[]" "[]" s res dq s']
      read_until_loop_serial[of expected timeout t0 passes "[]" "[]" s res dq s']
    by (simp add: read_until_def)
next
  case (ReaderPass t ev)
  show ?thesis
  proof (cases "ths t")
    case None
    then show ?thesis using ex inv ReaderPass by simp
  next
    case (Some r)
    then have "s' = fst (reader_iter ev (s, r))"
      using ex ReaderPass by (auto split: prod.splits)
    then show ?thesis using inv reader_iter_fields[of ev s r] by simp
  qed
qed

lemma run_serial_needs_process:
  "process s = None \<longrightarrow> serial s = None \<Longrightarrow> run cs (s, w, ths) = Some (s', w', ths') \<Longrightarrow>
   process s' = None \<longrightarrow> serial s' = None"
proof (induction cs arbitrary: s w ths)
  case Nil
  then show ?case by simp
next
  case (Cons c cs)
  from Cons.prems(2) obtain s1 w1 ths1 where
    1: "exec c (s, w, ths) = Some (s1, w1, ths1)" and 2: "run cs (s1, w1, ths1) = Some (s', w', ths')"
    by (auto split: option.splits)
  from exec_serial_needs_process[OF Cons.prems(1) 1] have "process s1 = None \<longrightarrow> serial s1 = None" .
  from Cons.IH[OF this 2] show ?case .
qed

lemma reachable_serial_needs_process:
  "run cs init_system = Some (s, w, ths) \<Longrightarrow> process s = None \<longrightarrow> serial s = None"
  using run_serial_needs_process[of init cs init_world Map.empty s w ths]
  by (simp add: init_system_def init_def)

end
